theory Spec2Isabelle
  imports Complex_Main "HOL-Library.Word" "HOL-Library.Sublist"
begin

unbundle bit_operations_syntax

section \<open>Errors\<close>

text \<open>
  Every exception the modelled code can raise is a value.  \<open>InvalidCharacterError\<close> is
  what \<^verbatim>\<open>atob\<close> throws, \<open>RangeError\<close> what \<^verbatim>\<open>new Int16Array(buffer)\<close> throws on a
  buffer of odd byte length, \<open>NotSupportedError\<close> and \<open>InvalidStateError\<close> stand for the
  failures of the Web Audio objects, \<open>TypeError\<close> is a property read on \<^verbatim>\<open>undefined\<close>,
  and \<open>Rejected\<close> is a collaborator promise that rejects.
\<close>

datatype error =
    InvalidCharacterError
  | RangeError
  | NotSupportedError
  | InvalidStateError
  | TypeError
  | Rejected

section \<open>PCM decoding (services/audio.ts, lines 1-36)\<close>

text \<open>
  The browser is a parameter of the model: \<open>atob\<close> is the platform's base64 decoder
  (\<open>None\<close> when it throws; the result is the list of the binary string's char codes),
  and the three flags say whether the corresponding Web Audio call returns normally:
  constructing the \<^verbatim>\<open>AudioContext\<close>, \<^verbatim>\<open>ctx.createBufferSource\<close> with
  \<^verbatim>\<open>source.connect\<close>, and \<^verbatim>\<open>source.start\<close>.
\<close>

record platform =
  atob :: "string \<Rightarrow> nat list option"
  context_ok :: bool
  source_ok :: bool
  start_ok :: bool

text \<open>\<^verbatim>\<open>decodeBase64\<close>: each char code is stored into a \<^verbatim>\<open>Uint8Array\<close> cell.\<close>

definition decodeBase64 :: "(string \<Rightarrow> nat list option) \<Rightarrow> string \<Rightarrow> error + 8 word list" where
  "decodeBase64 atob_fn base64 =
     (case atob_fn base64 of
        None \<Rightarrow> Inl InvalidCharacterError
      | Some binaryString \<Rightarrow> Inr (map of_nat binaryString))"

text \<open>
  \<^verbatim>\<open>new Int16Array(data.buffer)\<close> views the bytes pairwise as signed 16-bit integers,
  low byte first (little-endian), and throws a RangeError when the byte length is odd.
\<close>

definition le16 :: "8 word \<Rightarrow> 8 word \<Rightarrow> 16 word" where
  "le16 lo hi = ucast lo OR push_bit 8 (ucast hi)"

fun int16_view :: "8 word list \<Rightarrow> 16 word list" where
  "int16_view (lo # hi # rest) = le16 lo hi # int16_view rest"
| "int16_view _ = []"

definition Int16Array :: "8 word list \<Rightarrow> error + 16 word list" where
  "Int16Array bytes =
     (if odd (length bytes) then Inl RangeError else Inr (int16_view bytes))"

text \<open>
  The platform's \<^verbatim>\<open>ctx.createBuffer(numberOfChannels, length, sampleRate)\<close>.  It throws
  a NotSupportedError when an argument is zero, in particular for a buffer of no frames;
  otherwise it returns a silent buffer of that many channels and frames.  (It also
  refuses a channel count or a rate beyond what the platform supports; every platform
  supports the one channel and the 24000 Hz that the service asks for.)
\<close>

definition createBuffer :: "nat \<Rightarrow> nat \<Rightarrow> nat \<Rightarrow> error + real list list" where
  "createBuffer numberOfChannels len sampleRate =
     (if numberOfChannels = 0 \<or> len = 0 \<or> sampleRate = 0 then Inl NotSupportedError
      else Inr (replicate numberOfChannels (replicate len 0)))"

text \<open>
  \<^verbatim>\<open>decodeAudioData(data, ctx, sampleRate = 24000, numChannels = 1)\<close>.  The result is the
  list of the buffer's channels, every cell of which the two loops overwrite.  A quotient
  \<open>int16 / 32768\<close> is a multiple of \<open>2^-15\<close> of magnitude at most 1, which a Float32 cell
  holds exactly, so the samples are modelled as reals without rounding.
\<close>

definition decodeAudioData :: "8 word list \<Rightarrow> nat \<Rightarrow> nat \<Rightarrow> error + real list list" where
  "decodeAudioData data sampleRate numChannels =
     (case Int16Array data of
        Inl e \<Rightarrow> Inl e
      | Inr dataInt16 \<Rightarrow>
          (let frameCount = length dataInt16 div numChannels in
           case createBuffer numChannels frameCount sampleRate of
             Inl e \<Rightarrow> Inl e
           | Inr buffer \<Rightarrow>
               Inr (map (\<lambda>channel.
                      map (\<lambda>i. real_of_int (sint (dataInt16 ! (i * numChannels + channel))) / 32768)
                        [0..<frameCount])
                    [0..<numChannels])))"

section \<open>The playback service (services/audio.ts, lines 38-91)\<close>

text \<open>
  An \<^verbatim>\<open>AudioBufferSourceNode\<close> is an object of the platform.  The model keeps what the
  service does with it: its buffer, the \<^verbatim>\<open>onEnded\<close> argument captured by the handler the
  service installs on it (\<open>None\<close> when the optional argument is absent), and where the node
  is in its life: created, started and sounding, halted by \<^verbatim>\<open>stop()\<close>, or past its
  \<^verbatim>\<open>ended\<close> event.
\<close>

datatype node_state = Created | Playing | Stopped | Ended

record source_node =
  buffer :: "real list list"
  onended :: "nat option"
  nstate :: node_state

text \<open>
  The service has two fields, \<^verbatim>\<open>audioContext\<close> (here: whether it is non-null) and
  \<^verbatim>\<open>currentSource\<close> (the index of a node, or \<open>None\<close> for null).  \<open>nodes\<close> is the store
  of all source nodes created so far, a node's index being its identity, and \<open>fired\<close> lists
  the \<^verbatim>\<open>onEnded\<close> callbacks invoked so far, oldest first.  A callback is identified by a
  number chosen by the caller.
\<close>

record AudioService =
  audioContext :: bool
  currentSource :: "nat option"
  nodes :: "source_node list"
  fired :: "nat list"

definition initial :: AudioService where
  "initial = \<lparr>audioContext = False, currentSource = None, nodes = [], fired = []\<rparr>"

text \<open>\<^verbatim>\<open>getContext\<close>: the context is constructed on first use, which may throw.\<close>

definition getContext :: "platform \<Rightarrow> AudioService \<Rightarrow> error + AudioService" where
  "getContext p s =
     (if audioContext s then Inr s
      else if context_ok p then Inr (s\<lparr>audioContext := True\<rparr>)
      else Inl NotSupportedError)"

text \<open>
  The platform's \<^verbatim>\<open>source.stop()\<close> halts a sounding node.  On a node that was never
  started it throws, which \<^verbatim>\<open>AudioService.stop\<close> catches and ignores; on a node already
  halted it does nothing.
\<close>

definition node_stop :: "source_node \<Rightarrow> source_node" where
  "node_stop n = (if nstate n = Playing then n\<lparr>nstate := Stopped\<rparr> else n)"

text \<open>\<^verbatim>\<open>AudioService.stop\<close> (lines 79-88).\<close>

definition stop :: "AudioService \<Rightarrow> AudioService" where
  "stop s =
     (case currentSource s of
        None \<Rightarrow> s
      | Some i \<Rightarrow> s\<lparr>nodes := (nodes s)[i := node_stop (nodes s ! i)], currentSource := None\<rparr>)"

text \<open>\<^verbatim>\<open>if (onEnded) onEnded();\<close>\<close>

definition invoke :: "nat option \<Rightarrow> AudioService \<Rightarrow> AudioService" where
  "invoke onEnded s = (case onEnded of None \<Rightarrow> s | Some cb \<Rightarrow> s\<lparr>fired := fired s @ [cb]\<rparr>)"

text \<open>The handler installed as \<^verbatim>\<open>source.onended\<close> (lines 66-69).\<close>

definition onended_handler :: "nat option \<Rightarrow> AudioService \<Rightarrow> AudioService" where
  "onended_handler onEnded s = invoke onEnded (s\<lparr>currentSource := None\<rparr>)"

text \<open>
  \<^verbatim>\<open>playAudio\<close> (lines 54-77) is an async function with one suspension point, the
  \<^verbatim>\<open>await\<close> of line 60.  What comes before it runs when the function is called:
  \<^verbatim>\<open>this.stop()\<close>, \<^verbatim>\<open>getContext\<close>, \<^verbatim>\<open>decodeBase64\<close> (an exception of these two is caught
  at once) and the body of \<^verbatim>\<open>decodeAudioData\<close>, whose result or exception is held by the
  awaited promise.  The rest runs later, as a microtask, after the caller has run on: a
  rejected promise goes to \<^verbatim>\<open>catch\<close>; otherwise the source node is created and
  installed.  \<^verbatim>\<open>this.currentSource = source\<close> comes before \<^verbatim>\<open>source.start()\<close>, so a failing
  start leaves the field set.
\<close>

record suspended_play =
  decoded :: "error + real list list"
  callback :: "nat option"
  on_platform :: platform

definition playAudio_begin ::
  "platform \<Rightarrow> string \<Rightarrow> nat option \<Rightarrow> AudioService \<Rightarrow> AudioService \<times> suspended_play option" where
  "playAudio_begin p base64Audio onEnded s =
     (let s0 = stop s in
      case getContext p s0 of
        Inl e \<Rightarrow> (invoke onEnded s0, None)
      | Inr s1 \<Rightarrow>
         (case decodeBase64 (atob p) base64Audio of
            Inl e \<Rightarrow> (invoke onEnded s1, None)
          | Inr rawBytes \<Rightarrow>
              (s1, Some \<lparr>decoded = decodeAudioData rawBytes 24000 1,
                         callback = onEnded, on_platform = p\<rparr>)))"

definition playAudio_resume :: "suspended_play \<Rightarrow> AudioService \<Rightarrow> AudioService" where
  "playAudio_resume k s =
     (case decoded k of
        Inl e \<Rightarrow> invoke (callback k) s
      | Inr audioBuffer \<Rightarrow>
          if \<not> source_ok (on_platform k) then invoke (callback k) s
          else
            (let source = length (nodes s);
                 s2 = s\<lparr>nodes := nodes s @
                           [\<lparr>buffer = audioBuffer, onended = callback k, nstate = Created\<rparr>],
                        currentSource := Some source\<rparr>
             in if start_ok (on_platform k)
                then s2\<lparr>nodes := (nodes s2)[source := (nodes s2 ! source)\<lparr>nstate := Playing\<rparr>]\<rparr>
                else invoke (callback k) s2))"

definition resume :: "suspended_play option \<Rightarrow> AudioService \<Rightarrow> AudioService" where
  "resume k s = (case k of None \<Rightarrow> s | Some c \<Rightarrow> playAudio_resume c s)"

text \<open>
  When the call is awaited and nothing else is scheduled, the two parts run back to back.
  This is the call as one step: \<open>playAudio_try\<close> is the \<^verbatim>\<open>try\<close> block (the state it
  leaves, and the exception if one escaped), and \<open>playAudio\<close> is the stop, the block and
  the catch.
\<close>

definition playAudio_try ::
  "platform \<Rightarrow> string \<Rightarrow> nat option \<Rightarrow> AudioService \<Rightarrow> AudioService \<times> error option" where
  "playAudio_try p base64Audio onEnded s =
     (case getContext p s of
        Inl e \<Rightarrow> (s, Some e)
      | Inr s1 \<Rightarrow>
         (case decodeBase64 (atob p) base64Audio of
            Inl e \<Rightarrow> (s1, Some e)
          | Inr rawBytes \<Rightarrow>
             (case decodeAudioData rawBytes 24000 1 of
                Inl e \<Rightarrow> (s1, Some e)
              | Inr audioBuffer \<Rightarrow>
                 if \<not> source_ok p then (s1, Some NotSupportedError)
                 else
                   (let source = length (nodes s1);
                        s2 = s1\<lparr>nodes := nodes s1 @
                                  [\<lparr>buffer = audioBuffer, onended = onEnded, nstate = Created\<rparr>],
                                currentSource := Some source\<rparr>
                    in if start_ok p
                       then (s2\<lparr>nodes := (nodes s2)[source := (nodes s2 ! source)\<lparr>nstate := Playing\<rparr>]\<rparr>,
                             None)
                       else (s2, Some InvalidStateError)))))"

definition playAudio :: "platform \<Rightarrow> string \<Rightarrow> nat option \<Rightarrow> AudioService \<Rightarrow> AudioService" where
  "playAudio p base64Audio onEnded s =
     (case playAudio_try p base64Audio onEnded (stop s) of
        (s', None) \<Rightarrow> s'
      | (s', Some e) \<Rightarrow> invoke onEnded s')"

text \<open>
  The platform dispatching \<^verbatim>\<open>ended\<close> to node \<open>i\<close>, which runs the installed handler.  Web
  Audio dispatches the event to a source node once, when the node has stopped playing:
  at the end of its buffer, or after \<^verbatim>\<open>stop()\<close> was called on it.  The event is a task of
  its own, so it arrives after the code that called \<^verbatim>\<open>stop()\<close> has run to its end.
\<close>

definition dispatch_ended :: "nat \<Rightarrow> AudioService \<Rightarrow> AudioService" where
  "dispatch_ended i s =
     (if i < length (nodes s) \<and> (nstate (nodes s ! i) = Playing \<or> nstate (nodes s ! i) = Stopped)
      then onended_handler (onended (nodes s ! i))
             (s\<lparr>nodes := (nodes s)[i := (nodes s ! i)\<lparr>nstate := Ended\<rparr>]\<rparr>)
      else s)"

text \<open>
  What can happen to a service whose callers await: an awaited play, a stop, or the
  platform's event.
\<close>

datatype action = Play platform string "nat option" | Stop | EndedEvent nat

fun step :: "AudioService \<Rightarrow> action \<Rightarrow> AudioService" where
  "step s (Play p base64Audio onEnded) = playAudio p base64Audio onEnded s"
| "step s Stop = stop s"
| "step s (EndedEvent i) = dispatch_ended i s"

fun run :: "AudioService \<Rightarrow> action list \<Rightarrow> AudioService" where
  "run s [] = s"
| "run s (a # as) = run (step s a) as"

text \<open>
  A run is \<open>natural\<close> when every \<^verbatim>\<open>ended\<close> event in it reports a sound that played to
  its end, that is, when no event of a node halted by \<^verbatim>\<open>stop()\<close> is delivered.
\<close>

fun admissible :: "AudioService \<Rightarrow> action \<Rightarrow> bool" where
  "admissible s (EndedEvent i) = (i < length (nodes s) \<and> nstate (nodes s ! i) = Playing)"
| "admissible s _ = True"

fun natural :: "AudioService \<Rightarrow> action list \<Rightarrow> bool" where
  "natural s [] = True"
| "natural s (a # as) = (admissible s a \<and> natural (step s a) as)"

text \<open>The nodes that sound, and the single-channel invariant.\<close>

definition sounding :: "AudioService \<Rightarrow> nat list" where
  "sounding s = filter (\<lambda>i. nstate (nodes s ! i) = Playing) [0..<length (nodes s)]"

definition single_flight :: "AudioService \<Rightarrow> bool" where
  "single_flight s =
     ((\<forall>i < length (nodes s). nstate (nodes s ! i) = Playing \<longrightarrow> currentSource s = Some i)
      \<and> (\<forall>i. currentSource s = Some i \<longrightarrow> i < length (nodes s)))"

text \<open>
  The failures that come before a source node exists: the context cannot be acquired,
  \<^verbatim>\<open>atob\<close> rejects the payload, or \<^verbatim>\<open>decodeAudioData\<close> throws.
\<close>

definition acquisition_or_decoding_fails :: "platform \<Rightarrow> string \<Rightarrow> AudioService \<Rightarrow> bool" where
  "acquisition_or_decoding_fails p base64Audio s =
     (isl (getContext p s)
      \<or> (case decodeBase64 (atob p) base64Audio of
            Inl e \<Rightarrow> True
          | Inr rawBytes \<Rightarrow> isl (decodeAudioData rawBytes 24000 1)))"

text \<open>
  A platform on which every call succeeds, for concrete runs.  Its \<open>atob\<close> returns the char
  codes of its argument, so an argument of odd length is a payload of odd byte length.
\<close>

definition browser :: platform where
  "browser = \<lparr>atob = (\<lambda>s. Some (map of_char s)), context_ok = True, source_ok = True,
     start_ok = True\<rparr>"

text \<open>
  Two calls in succession, the first not awaited: both run up to their await, then both
  resume.
\<close>

definition two_calls_in_succession :: AudioService where
  "two_calls_in_succession =
     (case playAudio_begin browser ''ab'' (Some 7) initial of
        (s1, k1) \<Rightarrow>
          (case playAudio_begin browser ''cd'' (Some 8) s1 of
             (s2, k2) \<Rightarrow> resume k2 (resume k1 s2)))"

text \<open>
  Three awaited plays, the second superseding the first, with the \<^verbatim>\<open>ended\<close> event of
  the superseded node arriving before the third.
\<close>

definition three_plays :: "action list" where
  "three_plays =
     [Play browser ''ab'' (Some 7), Play browser ''cd'' (Some 8), EndedEvent 0,
      Play browser ''ef'' (Some 9)]"

text \<open>
  A call whose payload cannot be decoded (three bytes), made while an earlier call is
  suspended at its await: both run up to their await, then both resume.
\<close>

definition failing_call_interleaved :: AudioService where
  "failing_call_interleaved =
     (case playAudio_begin browser ''ab'' (Some 7) initial of
        (s1, k1) \<Rightarrow>
          (case playAudio_begin browser ''cde'' (Some 8) s1 of
             (s2, k2) \<Rightarrow> resume k2 (resume k1 s2)))"
section \<open>The interview session (components/InterviewSession.tsx, types.ts)\<close>

subsection \<open>Data\<close>

text \<open>\<^verbatim>\<open>Message\<close> of types.ts; an absent optional field is \<open>None\<close>.\<close>

datatype role = AI | USER

record message =
  msg_id :: string
  role :: role
  msg_text :: string
  feedback :: "string option"
  score :: "int option"

datatype category = technical | soft | other

record skill =
  skill_id :: string
  name :: string
  category :: category
  selected :: bool

text \<open>What \<^verbatim>\<open>validateAnswer\<close> resolves to.\<close>

record validation =
  verdict_feedback :: string
  verdict_score :: int

text \<open>The requests the component sends to its collaborators (services/gemini.ts).\<close>

datatype call =
    GenerateQuestion "skill list" "string list"
  | ValidateAnswer string string
  | GenerateSpeech string

text \<open>
  \<^verbatim>\<open>handleSendMessage\<close> is suspended twice, at \<^verbatim>\<open>await validateAnswer\<close> and at
  \<^verbatim>\<open>await generateInterviewQuestion\<close>.  A suspended invocation keeps the variables of
  its closure: \<^verbatim>\<open>userMsg\<close>, and the \<^verbatim>\<open>messages\<close> and \<^verbatim>\<open>isPlaying\<close> of the render in
  which the handler was created (the latter through the \<^verbatim>\<open>handlePlayAudio\<close> of that
  render).
\<close>

datatype phase = AwaitingValidation | AwaitingQuestion

record cycle =
  userMsg :: message
  closure_messages :: "message list"
  closure_isPlaying :: bool
  phase :: phase

text \<open>
  The component: its prop \<^verbatim>\<open>selectedSkills\<close>, its four state variables that are used,
  the module's \<^verbatim>\<open>audioService\<close>, and what is in flight: whether \<^verbatim>\<open>startInterview\<close> is
  suspended at its await, the suspended invocations of \<^verbatim>\<open>handleSendMessage\<close>, and the
  number of invocations of \<^verbatim>\<open>handlePlayAudio\<close> suspended at \<^verbatim>\<open>await generateSpeech\<close>.
  \<open>calls\<close> lists the requests sent so far, oldest first.
\<close>

record session =
  selectedSkills :: "skill list"
  messages :: "message list"
  inputText :: string
  isLoading :: bool
  isPlaying :: bool
  audioService :: AudioService
  startInterview_pending :: bool
  cycles :: "cycle list"
  speech_pending :: nat
  calls :: "call list"

subsection \<open>Strings\<close>

text \<open>
  \<^verbatim>\<open>String.prototype.trim\<close> on 8-bit characters: tab, line feed, vertical tab, form
  feed, carriage return, space and no-break space are white space.
\<close>

definition is_space :: "char \<Rightarrow> bool" where
  "is_space c = (c \<in> set [CHR 0x09, CHR 0x0A, CHR 0x0B, CHR 0x0C, CHR 0x0D, CHR 0x20, CHR 0xA0])"

definition trim :: "string \<Rightarrow> string" where
  "trim s = rev (dropWhile is_space (rev (dropWhile is_space s)))"

text \<open>\<^verbatim>\<open>Number.prototype.toString\<close> on a natural number, for \<^verbatim>\<open>Date.now().toString()\<close>.\<close>

definition digit :: "nat \<Rightarrow> char" where
  "digit d = ''0123456789'' ! d"

fun decimal :: "nat \<Rightarrow> string" where
  "decimal n = (if n < 10 then [digit n] else decimal (n div 10) @ [digit (n mod 10)])"

declare decimal.simps [simp del]

subsection \<open>Narration\<close>

text \<open>
  \<^verbatim>\<open>handlePlayAudio\<close> (lines 41-55) up to its await.  Its first argument is the
  \<^verbatim>\<open>isPlaying\<close> its closure sees.
\<close>

definition handlePlayAudio :: "bool \<Rightarrow> string \<Rightarrow> session \<Rightarrow> session" where
  "handlePlayAudio closure_playing txt st =
     (if closure_playing
      then st\<lparr>audioService := stop (audioService st), isPlaying := False\<rparr>
      else st\<lparr>isPlaying := True, calls := calls st @ [GenerateSpeech txt],
              speech_pending := Suc (speech_pending st)\<rparr>)"

text \<open>
  Every callback the component hands to the service is \<^verbatim>\<open>() => setIsPlaying(false)\<close>.
  After a step of the service the component's flag is cleared if a callback ran.
\<close>

definition setIsPlaying_false :: nat where
  "setIsPlaying_false = 0"

definition after_audio :: "AudioService \<Rightarrow> session \<Rightarrow> session" where
  "after_audio a st =
     st\<lparr>audioService := a,
        isPlaying := (if length (fired (audioService st)) < length (fired a) then False
                      else isPlaying st)\<rparr>"

text \<open>
  The rest of \<^verbatim>\<open>handlePlayAudio\<close>, run when \<^verbatim>\<open>generateSpeech\<close> resolves.  The test
  \<^verbatim>\<open>if (audioData)\<close> fails on \<^verbatim>\<open>null\<close> and on the empty string.  The play is awaited,
  and its microtask runs before any other event reaches the component.
\<close>

definition speechArrives :: "string option \<Rightarrow> platform \<Rightarrow> session \<Rightarrow> session" where
  "speechArrives audioData p st =
     (if speech_pending st = 0 then st
      else
        (let st1 = st\<lparr>speech_pending := speech_pending st - 1\<rparr> in
         case audioData of
           Some base64Audio \<Rightarrow>
             if base64Audio = [] then st1\<lparr>isPlaying := False\<rparr>
             else after_audio
                    (playAudio p base64Audio (Some setIsPlaying_false) (audioService st1)) st1
         | None \<Rightarrow> st1\<lparr>isPlaying := False\<rparr>))"

definition audioEnded :: "nat \<Rightarrow> session \<Rightarrow> session" where
  "audioEnded i st = after_audio (dispatch_ended i (audioService st)) st"


definition clickReadAloud :: "nat \<Rightarrow> session \<Rightarrow> session" where
  "clickReadAloud k st =
     (if k < length (messages st) \<and> role (messages st ! k) = AI
      then handlePlayAudio (isPlaying st) (msg_text (messages st ! k)) st
      else st)"

subsection \<open>Starting the interview\<close>

definition initial_session :: "skill list \<Rightarrow> session" where
  "initial_session skills =
     \<lparr>selectedSkills = skills, messages = [], inputText = [], isLoading = False, isPlaying = False,
      audioService = initial, startInterview_pending = False, cycles = [], speech_pending = 0,
      calls = []\<rparr>"

text \<open>\<^verbatim>\<open>startInterview\<close> (lines 22-31) up to its await, run by the effect after mounting.\<close>

definition startInterview :: "session \<Rightarrow> session" where
  "startInterview st =
     st\<lparr>isLoading := True, calls := calls st @ [GenerateQuestion (selectedSkills st) []],
        startInterview_pending := True\<rparr>"

definition mounted :: "skill list \<Rightarrow> session" where
  "mounted skills = startInterview (initial_session skills)"

text \<open>
  The rest of \<^verbatim>\<open>startInterview\<close>.  A rejection is not caught there, so nothing more
  happens.  The effect belongs to the first render, whose \<^verbatim>\<open>isPlaying\<close> is false.
\<close>

definition initialQuestionArrives :: "error + string \<Rightarrow> session \<Rightarrow> session" where
  "initialQuestionArrives result st =
     (if \<not> startInterview_pending st then st
      else
        (case result of
           Inl e \<Rightarrow> st\<lparr>startInterview_pending := False\<rparr>
         | Inr question \<Rightarrow>
             (let newMessage = \<lparr>msg_id = ''init'', role = AI, msg_text = question,
                                 feedback = None, score = None\<rparr>
              in handlePlayAudio False question
                   (st\<lparr>messages := [newMessage], isLoading := False,
                       startInterview_pending := False\<rparr>))))"

subsection \<open>Submitting an answer\<close>

text \<open>\<^verbatim>\<open>userMsg\<close> (line 61) and \<^verbatim>\<open>aiMsg\<close> (line 80); the argument is \<^verbatim>\<open>Date.now()\<close>.\<close>

definition user_turn :: "nat \<Rightarrow> session \<Rightarrow> message" where
  "user_turn now st =
     \<lparr>msg_id = decimal now, role = USER, msg_text = inputText st, feedback = None, score = None\<rparr>"

definition ai_turn :: "nat \<Rightarrow> string \<Rightarrow> message" where
  "ai_turn now nextQuestion =
     \<lparr>msg_id = decimal (now + 1), role = AI, msg_text = nextQuestion, feedback = None, score = None\<rparr>"

text \<open>
  \<^verbatim>\<open>handleSendMessage\<close> (lines 57-65) up to its first await.  Reading \<^verbatim>\<open>.text\<close> of
  \<^verbatim>\<open>messages[messages.length - 1]\<close> throws a TypeError when there is no message; the
  promise of the handler is then rejected and no state was set.
\<close>

definition handleSendMessage :: "nat \<Rightarrow> session \<Rightarrow> error + session" where
  "handleSendMessage now st =
     (if trim (inputText st) = [] then Inr st
      else if messages st = [] then Inl TypeError
      else
        (let currentQuestion = msg_text (last (messages st));
             newMsg = user_turn now st
         in Inr (st\<lparr>messages := messages st @ [newMsg],
                     inputText := [],
                     isLoading := True,
                     calls := calls st @ [ValidateAnswer currentQuestion (msg_text newMsg)],
                     cycles := cycles st @
                       [\<lparr>userMsg = newMsg, closure_messages = messages st,
                         closure_isPlaying = isPlaying st, phase = AwaitingValidation\<rparr>]\<rparr>)))"

definition drop_nth :: "nat \<Rightarrow> 'a list \<Rightarrow> 'a list" where
  "drop_nth i xs = take i xs @ drop (Suc i) xs"

text \<open>The function mapped over the transcript at lines 72-74.\<close>

definition attach :: "string \<Rightarrow> validation \<Rightarrow> message \<Rightarrow> message" where
  "attach uid v m =
     (if msg_id m = uid
      then m\<lparr>feedback := Some (verdict_feedback v), score := Some (verdict_score v)\<rparr>
      else m)"

text \<open>
  Lines 69-78, run when \<^verbatim>\<open>validateAnswer\<close> settles for the suspended invocation \<open>k\<close>.  A
  rejection goes to \<^verbatim>\<open>catch\<close> and \<^verbatim>\<open>finally\<close>.
\<close>

definition validationArrives :: "nat \<Rightarrow> error + validation \<Rightarrow> session \<Rightarrow> session" where
  "validationArrives k result st =
     (if k < length (cycles st) \<and> phase (cycles st ! k) = AwaitingValidation
      then
        (let c = cycles st ! k in
         case result of
           Inl e \<Rightarrow> st\<lparr>cycles := drop_nth k (cycles st), isLoading := False\<rparr>
         | Inr v \<Rightarrow>
             (let prevQuestions = map msg_text (filter (\<lambda>m. role m = AI) (closure_messages c))
              in st\<lparr>messages := map (attach (msg_id (userMsg c)) v) (messages st),
                     calls := calls st @ [GenerateQuestion (selectedSkills st) prevQuestions],
                     cycles := (cycles st)[k := c\<lparr>phase := AwaitingQuestion\<rparr>]\<rparr>))
      else st)"

text \<open>
  Lines 78-90, run when \<^verbatim>\<open>generateInterviewQuestion\<close> settles for the suspended
  invocation \<open>k\<close>; the last argument is \<^verbatim>\<open>Date.now()\<close>.
\<close>

definition questionArrives :: "nat \<Rightarrow> error + string \<Rightarrow> nat \<Rightarrow> session \<Rightarrow> session" where
  "questionArrives k result now st =
     (if k < length (cycles st) \<and> phase (cycles st ! k) = AwaitingQuestion
      then
        (let c = cycles st ! k in
         case result of
           Inl e \<Rightarrow> st\<lparr>cycles := drop_nth k (cycles st), isLoading := False\<rparr>
         | Inr nextQuestion \<Rightarrow>
             (let aiMsg = ai_turn now nextQuestion;
                  st1 = st\<lparr>messages := messages st @ [aiMsg], cycles := drop_nth k (cycles st)\<rparr>
              in (handlePlayAudio (closure_isPlaying c) nextQuestion st1)\<lparr>isLoading := False\<rparr>))
      else st)"

subsection \<open>The input area (lines 186-209)\<close>

text \<open>
  A disabled control delivers no event.  A rejected promise of the handler is not
  handled by anyone, and the state is as before.
\<close>

definition sendButton_disabled :: "session \<Rightarrow> bool" where
  "sendButton_disabled st = (trim (inputText st) = [] \<or> isLoading st)"

definition textarea_disabled :: "session \<Rightarrow> bool" where
  "textarea_disabled st = isLoading st"

definition unhandled :: "session \<Rightarrow> error + session \<Rightarrow> session" where
  "unhandled st r = (case r of Inl e \<Rightarrow> st | Inr st' \<Rightarrow> st')"

definition clickSend :: "nat \<Rightarrow> session \<Rightarrow> session" where
  "clickSend now st =
     (if sendButton_disabled st then st else unhandled st (handleSendMessage now st))"

definition pressEnter :: "nat \<Rightarrow> session \<Rightarrow> session" where
  "pressEnter now st =
     (if textarea_disabled st then st else unhandled st (handleSendMessage now st))"

definition changeInput :: "string \<Rightarrow> session \<Rightarrow> session" where
  "changeInput v st = (if textarea_disabled st then st else st\<lparr>inputText := v\<rparr>)"

subsection \<open>Sessions\<close>

text \<open>Everything that can happen to a mounted component, and a session as a list of it.\<close>

datatype event =
    InitialQuestionArrives "error + string"
  | ChangeInput string
  | ClickSend nat
  | PressEnter nat
  | ValidationArrives nat "error + validation"
  | QuestionArrives nat "error + string" nat
  | ClickReadAloud nat
  | SpeechArrives "string option" platform
  | AudioEnded nat

fun react :: "session \<Rightarrow> event \<Rightarrow> session" where
  "react st (InitialQuestionArrives r) = initialQuestionArrives r st"
| "react st (ChangeInput v) = changeInput v st"
| "react st (ClickSend now) = clickSend now st"
| "react st (PressEnter now) = pressEnter now st"
| "react st (ValidationArrives k r) = validationArrives k r st"
| "react st (QuestionArrives k r now) = questionArrives k r now st"
| "react st (ClickReadAloud k) = clickReadAloud k st"
| "react st (SpeechArrives audioData p) = speechArrives audioData p st"
| "react st (AudioEnded i) = audioEnded i st"

fun interview :: "session \<Rightarrow> event list \<Rightarrow> session" where
  "interview st [] = st"
| "interview st (e # es) = interview (react st e) es"

subsection \<open>Notions the properties are stated with\<close>

text \<open>
  The state \<^verbatim>\<open>AWAITING_ANSWER\<close> of the specified state machine: the most recent turn is
  the AI's and the session is not busy.
\<close>

definition AWAITING_ANSWER :: "session \<Rightarrow> bool" where
  "AWAITING_ANSWER st = (messages st \<noteq> [] \<and> role (last (messages st)) = AI \<and> \<not> isLoading st)"

text \<open>What identifies a turn, and what may be added to it.\<close>

definition core :: "message \<Rightarrow> string \<times> role \<times> string" where
  "core m = (msg_id m, role m, msg_text m)"

definition evaluated :: "message \<Rightarrow> bool" where
  "evaluated m = (feedback m \<noteq> None \<and> score m \<noteq> None)"

definition first_attachment :: "message \<Rightarrow> message \<Rightarrow> bool" where
  "first_attachment m m' =
     (role m = USER \<and> feedback m = None \<and> score m = None \<and> evaluated m'
      \<and> m' = m\<lparr>feedback := feedback m', score := score m'\<rparr>)"

definition evolves :: "message \<Rightarrow> message \<Rightarrow> bool" where
  "evolves m m' = (m' = m \<or> first_attachment m m')"

text \<open>
  The place in the transcript of the turn a suspended invocation appended, and the
  invariant that ties a suspended invocation to that turn: it is there, it is the user's,
  and once the invocation waits for the next question the turn carries its evaluation.
\<close>

definition own_index :: "cycle \<Rightarrow> nat" where
  "own_index c = length (closure_messages c)"

definition in_order :: "message list \<Rightarrow> cycle \<Rightarrow> bool" where
  "in_order msgs c =
     (own_index c < length msgs
      \<and> core (msgs ! own_index c) = core (userMsg c)
      \<and> role (userMsg c) = USER
      \<and> (phase c = AwaitingQuestion \<longrightarrow> evaluated (msgs ! own_index c)))"

definition orderly :: "session \<Rightarrow> bool" where
  "orderly st =
     ((startInterview_pending st \<longrightarrow> messages st = [])
      \<and> (\<forall>c \<in> set (cycles st). in_order (messages st) c))"

definition enabled :: "phase \<Rightarrow> nat \<Rightarrow> session \<Rightarrow> bool" where
  "enabled ph k st = (k < length (cycles st) \<and> phase (cycles st ! k) = ph)"

text \<open>
  Identifiers come from the clock.  An event is fresh when the identifier it creates is
  not yet in the transcript.
\<close>

fun fresh :: "session \<Rightarrow> event \<Rightarrow> bool" where
  "fresh st (ClickSend now) = (decimal now \<notin> set (map msg_id (messages st)))"
| "fresh st (PressEnter now) = (decimal now \<notin> set (map msg_id (messages st)))"
| "fresh st (QuestionArrives k r now) = (decimal (now + 1) \<notin> set (map msg_id (messages st)))"
| "fresh st _ = True"

fun fresh_ids :: "session \<Rightarrow> event list \<Rightarrow> bool" where
  "fresh_ids st [] = True"
| "fresh_ids st (e # es) = (fresh st e \<and> fresh_ids (react st e) es)"

definition unevaluated :: "message list \<Rightarrow> cycle \<Rightarrow> bool" where
  "unevaluated msgs c =
     (phase c = AwaitingValidation \<longrightarrow>
        feedback (msgs ! own_index c) = None \<and> score (msgs ! own_index c) = None)"

definition tidy :: "session \<Rightarrow> bool" where
  "tidy st =
     (orderly st
      \<and> distinct (map msg_id (messages st))
      \<and> distinct (map own_index (cycles st))
      \<and> (\<forall>c \<in> set (cycles st). unevaluated (messages st) c))"

text \<open>
  At most one submission is in flight, and while one is the session is busy and started.
\<close>

definition one_in_flight :: "session \<Rightarrow> bool" where
  "one_in_flight st =
     (length (cycles st) \<le> 1
      \<and> (cycles st \<noteq> [] \<longrightarrow> isLoading st \<and> \<not> startInterview_pending st)
      \<and> (startInterview_pending st \<longrightarrow> messages st = []))"

subsection \<open>Concrete sessions\<close>

definition good :: validation where
  "good = \<lparr>verdict_feedback = ''Good'', verdict_score = 8\<rparr>"

text \<open>The first question has arrived and an answer is typed.\<close>

definition answer_typed :: session where
  "answer_typed = interview (mounted []) [InitialQuestionArrives (Inr ''Q1''), ChangeInput ''a1'']"

text \<open>An answer has been submitted and its evaluation is awaited.\<close>

definition answer_submitted :: session where
  "answer_submitted =
     interview (mounted [])
       [InitialQuestionArrives (Inr ''Q1''), ChangeInput ''a1'', ClickSend 100]"

text \<open>One full cycle.\<close>

definition one_cycle :: "event list" where
  "one_cycle =
     [InitialQuestionArrives (Inr ''Q1''), ChangeInput ''a1'', ClickSend 100,
      ValidationArrives 0 (Inr good), QuestionArrives 0 (Inr ''Q2'') 200]"

text \<open>The evaluation of the first answer was rejected, and a second answer is typed.\<close>

definition after_failed_evaluation :: session where
  "after_failed_evaluation =
     interview (mounted [])
       [InitialQuestionArrives (Inr ''Q1''), ChangeInput ''a1'', ClickSend 100,
        ValidationArrives 0 (Inl Rejected), ChangeInput ''a2'']"


text \<open>
  A session in which a narration requested by the button during a cycle is superseded by
  the narration of the next question, the \<^verbatim>\<open>ended\<close> event of the superseded node arrives,
  and the button is used once more.
\<close>

definition overlapping_session :: "event list" where
  "overlapping_session =
     [InitialQuestionArrives (Inr ''Q1''), SpeechArrives (Some ''ab'') browser, AudioEnded 0,
      ChangeInput ''a1'', ClickSend 100,
      ClickReadAloud 0, SpeechArrives (Some ''cd'') browser,
      ValidationArrives 0 (Inr good), QuestionArrives 0 (Inr ''Q2'') 200,
      SpeechArrives (Some ''ef'') browser, AudioEnded 1,
      ClickReadAloud 0, SpeechArrives (Some ''gh'') browser]"


text \<open>
  The session above up to the late \<^verbatim>\<open>ended\<close> event, followed by a narration requested by
  the button whose payload cannot be decoded (three bytes).
\<close>

definition failed_narration :: "event list" where
  "failed_narration =
     take 11 overlapping_session @ [ClickReadAloud 0, SpeechArrives (Some ''ijk'') browser]"

text \<open>
  One full cycle whose question arrives at clock 200, so that the AI turn is numbered 201,
  followed by a second answer submitted at clock 201 and its evaluation.
\<close>

definition poor :: validation where
  "poor = \<lparr>verdict_feedback = ''Poor'', verdict_score = 2\<rparr>"

definition colliding_session :: "event list" where
  "colliding_session =
     one_cycle @ [ChangeInput ''a2'', ClickSend 201, ValidationArrives 0 (Inr poor)]"

text \<open>The same with a clock that reads 100 again at the second submission.\<close>

definition repeated_clock_session :: "event list" where
  "repeated_clock_session =
     one_cycle @ [ChangeInput ''a2'', ClickSend 100, ValidationArrives 0 (Inr poor)]"
section \<open>Facts about decoding\<close>

lemma length_int16_view: "length (int16_view bs) = length bs div 2"
  by (induction bs rule: int16_view.induct) simp_all

lemma int16_view_nth:
  "i < length bs div 2 \<Longrightarrow> int16_view bs ! i = le16 (bs ! (2 * i)) (bs ! (2 * i + 1))"
proof (induction bs arbitrary: i rule: int16_view.induct)
  case (1 lo hi rest)
  then show ?case by (cases i) simp_all
qed simp_all

lemma le16_zero: "le16 0 0 = 0"
  by (simp add: le16_def)

lemma normalized_range:
  fixes w :: "16 word"
  shows "- 1 \<le> real_of_int (sint w) / 32768 \<and> real_of_int (sint w) / 32768 \<le> 1"
proof -
  have lo: "- 32768 \<le> sint w" using sint_ge [of w] by simp
  have hi: "sint w < 32768" using sint_lt [of w] by simp
  have "real_of_int (- 32768) \<le> real_of_int (sint w)"
    using lo by (simp only: of_int_le_iff)
  moreover have "real_of_int (sint w) \<le> real_of_int 32768"
    using hi by (simp only: of_int_le_iff)
  ultimately show ?thesis by (simp del: of_int_sint)
qed

text \<open>
  C3, refuted as stated.  A payload of no bytes has byte length \<open>2 * 0\<close>, and decoding it
  yields no buffer of zero samples: \<^verbatim>\<open>createBuffer\<close> is asked for zero frames and throws.
  \<^verbatim>\<open>playAudio\<close> takes the exception in its \<^verbatim>\<open>catch\<close>.
\<close>

theorem empty_payload_counterexample:
  "length ([] :: 8 word list) = 2 * 0
   \<and> decodeAudioData [] 24000 1 = Inl NotSupportedError
   \<and> fired (playAudio browser [] (Some 7) initial) = [7]
   \<and> nodes (playAudio browser [] (Some 7) initial) = []"
  by (simp add: decodeAudioData_def Int16Array_def createBuffer_def playAudio_def playAudio_try_def
      getContext_def decodeBase64_def browser_def initial_def stop_def invoke_def)

text \<open>
  C3, amended.  A raw PCM payload of \<open>2 * sampleCount\<close> bytes with at least one sample
  decodes (single channel, 24000 Hz) to exactly \<open>sampleCount\<close> samples; sample \<open>i\<close> is the
  signed value of the little-endian 16-bit word made of bytes \<open>2i\<close> and \<open>2i+1\<close>, divided
  by 32768, and lies in \<open>[-1, 1]\<close>; an all-zero payload gives all-zero samples.  The
  payload of no bytes is refused with a NotSupportedError.
\<close>

theorem decodeAudioData_normalized:
  assumes "length payload = 2 * sampleCount"
  shows "(sampleCount = 0 \<longrightarrow> decodeAudioData payload 24000 1 = Inl NotSupportedError)
       \<and> (0 < sampleCount \<longrightarrow>
            (\<exists>samples. decodeAudioData payload 24000 1 = Inr [samples]
               \<and> length samples = sampleCount
               \<and> (\<forall>i. i < sampleCount \<longrightarrow>
                     samples ! i =
                       real_of_int (sint (le16 (payload ! (2 * i)) (payload ! (2 * i + 1)))) / 32768
                   \<and> - 1 \<le> samples ! i \<and> samples ! i \<le> 1)
               \<and> (set payload \<subseteq> {0} \<longrightarrow> set samples \<subseteq> {0})))"
proof -
  let ?v = "int16_view payload"
  let ?samples = "map (\<lambda>i. real_of_int (sint (?v ! i)) / 32768) [0..<sampleCount]"
  have len: "length ?v = sampleCount"
    using assms by (simp add: length_int16_view)
  have empty: "decodeAudioData payload 24000 1 = Inl NotSupportedError" if "sampleCount = 0"
    using assms len that by (simp add: decodeAudioData_def Int16Array_def createBuffer_def)
  have dec: "decodeAudioData payload 24000 1 = Inr [?samples]" if "0 < sampleCount"
    using assms len that by (simp add: decodeAudioData_def Int16Array_def createBuffer_def)
  have each: "\<forall>i. i < sampleCount \<longrightarrow>
      ?samples ! i = real_of_int (sint (le16 (payload ! (2 * i)) (payload ! (2 * i + 1)))) / 32768
      \<and> - 1 \<le> ?samples ! i \<and> ?samples ! i \<le> 1"
  proof (intro allI impI)
    fix i assume i: "i < sampleCount"
    then have "i < length payload div 2" using assms by simp
    then have v: "?v ! i = le16 (payload ! (2 * i)) (payload ! (2 * i + 1))"
      by (rule int16_view_nth)
    have s: "?samples ! i = real_of_int (sint (?v ! i)) / 32768"
      using i by simp
    show "?samples ! i = real_of_int (sint (le16 (payload ! (2 * i)) (payload ! (2 * i + 1)))) / 32768
      \<and> - 1 \<le> ?samples ! i \<and> ?samples ! i \<le> 1"
      unfolding s v using normalized_range by blast
  qed
  have zero: "set payload \<subseteq> {0} \<longrightarrow> set ?samples \<subseteq> {0}"
  proof
    assume z: "set payload \<subseteq> {0}"
    have "?samples ! i = 0" if i: "i < sampleCount" for i
    proof -
      have a: "2 * i < length payload" and b: "2 * i + 1 < length payload"
        using i assms by simp_all
      have "payload ! (2 * i) = 0" "payload ! (2 * i + 1) = 0"
        using z nth_mem [OF a] nth_mem [OF b] by auto
      with each i show ?thesis by (simp add: le16_zero)
    qed
    then show "set ?samples \<subseteq> {0}"
      by (auto simp del: map_eq_conv simp: in_set_conv_nth)
  qed
  have l: "length ?samples = sampleCount" by simp
  have "\<exists>samples. decodeAudioData payload 24000 1 = Inr [samples]
               \<and> length samples = sampleCount
               \<and> (\<forall>i. i < sampleCount \<longrightarrow>
                     samples ! i =
                       real_of_int (sint (le16 (payload ! (2 * i)) (payload ! (2 * i + 1)))) / 32768
                   \<and> - 1 \<le> samples ! i \<and> samples ! i \<le> 1)
               \<and> (set payload \<subseteq> {0} \<longrightarrow> set samples \<subseteq> {0})"
    if "0 < sampleCount"
    using dec [OF that] each zero l by blast
  with empty show ?thesis by blast
qed

theorem decodeAudioData_normalized_witness:
  "decodeAudioData [0, 128, 255, 127] 24000 1 = Inr [[- 1, 32767 / 32768]]
   \<and> decodeAudioData [0, 0, 0, 0] 24000 1 = Inr [[0, 0]]
   \<and> decodeAudioData [] 24000 1 = Inl NotSupportedError"
proof -
  have h: "length [0, 128, 255, 127 :: 8 word] = 2 * 2" by simp
  have pos: "0 < (2::nat)" by simp
  from decodeAudioData_normalized [OF h] pos obtain samples where
    d: "decodeAudioData [0, 128, 255, 127] 24000 1 = Inr [samples]"
    and l: "length samples = 2"
    and e: "\<And>i. i < 2 \<Longrightarrow> samples ! i =
        real_of_int (sint (le16 ([0, 128, 255, 127] ! (2 * i)) ([0, 128, 255, 127] ! (2 * i + 1)))) / 32768"
    by blast
  have "samples ! 0 = - 1" using e [of 0] by (simp add: le16_def)
  moreover have "samples ! 1 = 32767 / 32768" using e [of 1] by (simp add: le16_def)
  ultimately have "samples = [- 1, 32767 / 32768]"
    using l by (cases samples; cases "tl samples") auto
  with d have first: "decodeAudioData [0, 128, 255, 127] 24000 1 = Inr [[- 1, 32767 / 32768]]"
    by simp
  have h0: "length [0, 0, 0, 0 :: 8 word] = 2 * 2" by simp
  from decodeAudioData_normalized [OF h0] pos obtain zeros where
    d0: "decodeAudioData [0, 0, 0, 0] 24000 1 = Inr [zeros]"
    and l0: "length zeros = 2"
    and z: "set [0, 0, 0, 0 :: 8 word] \<subseteq> {0} \<longrightarrow> set zeros \<subseteq> {0}"
    by blast
  from z have "set zeros \<subseteq> {0}" by simp
  with l0 have "zeros = [0, 0]"
    by (cases zeros; cases "tl zeros") auto
  with d0 have second: "decodeAudioData [0, 0, 0, 0] 24000 1 = Inr [[0, 0]]" by simp
  have he: "length ([] :: 8 word list) = 2 * 0" by simp
  from decodeAudioData_normalized [OF he]
  have third: "decodeAudioData [] 24000 1 = Inl NotSupportedError" by blast
  from first second third show ?thesis by blast
qed
section \<open>The single playback channel\<close>

text \<open>The awaited call is its two parts run back to back.\<close>

lemma playAudio_awaited:
  "playAudio p b cb s = (case playAudio_begin p b cb s of (s1, k) \<Rightarrow> resume k s1)"
  by (simp add: playAudio_def playAudio_try_def playAudio_begin_def playAudio_resume_def
      resume_def Let_def split: sum.splits)

lemma single_flight_initial: "single_flight initial"
  by (simp add: single_flight_def initial_def)

lemma single_flightI:
  assumes "\<And>i. i < length (nodes s) \<Longrightarrow> nstate (nodes s ! i) = Playing \<Longrightarrow> currentSource s = Some i"
    and "\<And>i. currentSource s = Some i \<Longrightarrow> i < length (nodes s)"
  shows "single_flight s"
  unfolding single_flight_def using assms by blast

lemma single_flight_playing:
  "single_flight s \<Longrightarrow> i < length (nodes s) \<Longrightarrow> nstate (nodes s ! i) = Playing \<Longrightarrow> currentSource s = Some i"
  unfolding single_flight_def by blast

lemma single_flight_bound:
  "single_flight s \<Longrightarrow> currentSource s = Some i \<Longrightarrow> i < length (nodes s)"
  unfolding single_flight_def by blast

lemma stop_fields [simp]:
  "currentSource (stop s) = None"
  "length (nodes (stop s)) = length (nodes s)"
  "audioContext (stop s) = audioContext s"
  "fired (stop s) = fired s"
  by (simp_all add: stop_def split: option.splits)

lemma nth_update_total:
  "xs[k := v] ! i = (if k = i \<and> i < length xs then v else xs ! i)"
  by (cases "k = i") (simp_all add: list_update_beyond not_less)

lemma stop_nstate:
  "i < length (nodes s) \<Longrightarrow>
   nstate (nodes (stop s) ! i) =
     (if currentSource s = Some i \<and> nstate (nodes s ! i) = Playing then Stopped
      else nstate (nodes s ! i))"
  by (auto simp: stop_def node_stop_def nth_update_total split: option.splits)

lemma stop_silent:
  assumes sf: "single_flight s" and i: "i < length (nodes s)"
  shows "nstate (nodes (stop s) ! i) \<noteq> Playing"
proof
  assume p: "nstate (nodes (stop s) ! i) = Playing"
  then have q: "nstate (nodes s ! i) = Playing"
    using i by (simp add: stop_nstate split: if_splits)
  then have "currentSource s = Some i" using sf i by (intro single_flight_playing)
  with p q i show False by (simp add: stop_nstate)
qed

lemma single_flight_stop: "single_flight s \<Longrightarrow> single_flight (stop s)"
  using stop_silent [of s] by (intro single_flightI) simp_all

lemma invoke_fields [simp]:
  "currentSource (invoke cb s) = currentSource s"
  "nodes (invoke cb s) = nodes s"
  "audioContext (invoke cb s) = audioContext s"
  by (simp_all add: invoke_def split: option.splits)

lemma single_flight_invoke [simp]: "single_flight (invoke cb s) = single_flight s"
  by (simp add: single_flight_def)

lemma invoke_fired:
  "fired (invoke cb s) = fired s @ (case cb of None \<Rightarrow> [] | Some c \<Rightarrow> [c])"
  by (simp add: invoke_def split: option.splits)

lemma getContext_shape:
  "getContext p s = Inl NotSupportedError \<or> getContext p s = Inr (s\<lparr>audioContext := True\<rparr>)"
  by (simp add: getContext_def)

lemma playAudio_try_shape:
  "(\<exists>s' e. playAudio_try p b cb s = (s', Some e) \<and> nodes s' = nodes s
        \<and> currentSource s' = currentSource s \<and> fired s' = fired s)
   \<or> (\<exists>s' r buf st. playAudio_try p b cb s = (s', r)
        \<and> ((r = None \<and> st = Playing) \<or> (r = Some InvalidStateError \<and> st = Created))
        \<and> nodes s' = nodes s @ [\<lparr>buffer = buf, onended = cb, nstate = st\<rparr>]
        \<and> currentSource s' = Some (length (nodes s)) \<and> fired s' = fired s)"
  by (simp add: playAudio_try_def getContext_def Let_def split: sum.splits)

lemma playAudio_try_cases:
  obtains (early) s' e where "playAudio_try p b cb s = (s', Some e)" "nodes s' = nodes s"
      "currentSource s' = currentSource s" "fired s' = fired s"
  | (late) s' r buf st where "playAudio_try p b cb s = (s', r)"
      "(r = None \<and> st = Playing) \<or> (r = Some InvalidStateError \<and> st = Created)"
      "nodes s' = nodes s @ [\<lparr>buffer = buf, onended = cb, nstate = st\<rparr>]"
      "currentSource s' = Some (length (nodes s))" "fired s' = fired s"
  using playAudio_try_shape [of p b cb s] by blast

lemma single_flight_try:
  assumes c: "currentSource s = None"
    and q: "\<And>i. i < length (nodes s) \<Longrightarrow> nstate (nodes s ! i) \<noteq> Playing"
  shows "single_flight (fst (playAudio_try p b cb s))"
proof (cases rule: playAudio_try_cases [of p b cb s])
  case (early s' e)
  with c q show ?thesis by (intro single_flightI) simp_all
next
  case (late s' r buf st)
  note t = late(1) and n = late(3) and cs = late(4)
  show ?thesis unfolding t fst_conv
  proof (rule single_flightI)
    fix i assume "i < length (nodes s')" "nstate (nodes s' ! i) = Playing"
    then show "currentSource s' = Some i"
      using q [of i] n cs by (cases "i < length (nodes s)") (simp_all add: nth_append)
  next
    fix i assume "currentSource s' = Some i"
    then show "i < length (nodes s')" using n cs by simp
  qed
qed

lemma single_flight_playAudio:
  assumes "single_flight s"
  shows "single_flight (playAudio p b cb s)"
proof -
  have "single_flight (fst (playAudio_try p b cb (stop s)))"
    using stop_silent [OF assms] by (intro single_flight_try) simp_all
  then show ?thesis
    by (cases "playAudio_try p b cb (stop s)") (simp add: playAudio_def split: option.splits)
qed

lemma single_flight_dispatch:
  assumes sf: "single_flight s" and a: "admissible s (EndedEvent i)"
  shows "single_flight (dispatch_ended i s)"
proof -
  from a have i: "i < length (nodes s)" and p: "nstate (nodes s ! i) = Playing" by simp_all
  have d: "dispatch_ended i s =
      invoke (onended (nodes s ! i))
        (s\<lparr>nodes := (nodes s)[i := (nodes s ! i)\<lparr>nstate := Ended\<rparr>], currentSource := None\<rparr>)"
    using i p by (simp add: dispatch_ended_def onended_handler_def)
  show ?thesis unfolding d single_flight_invoke
  proof (rule single_flightI)
    fix j
    assume j: "j < length (nodes (s\<lparr>nodes := (nodes s)[i := (nodes s ! i)\<lparr>nstate := Ended\<rparr>], currentSource := None\<rparr>))"
      and pj: "nstate (nodes (s\<lparr>nodes := (nodes s)[i := (nodes s ! i)\<lparr>nstate := Ended\<rparr>], currentSource := None\<rparr>) ! j) = Playing"
    from pj have ne: "j \<noteq> i" using i by (auto simp: nth_update_total)
    with pj have "nstate (nodes s ! j) = Playing" by simp
    with sf j have "currentSource s = Some j" by (intro single_flight_playing) simp_all
    moreover from sf i p have "currentSource s = Some i" by (intro single_flight_playing)
    ultimately have False using ne by simp
    then show "currentSource (s\<lparr>nodes := (nodes s)[i := (nodes s ! i)\<lparr>nstate := Ended\<rparr>], currentSource := None\<rparr>) = Some j" ..
  qed simp
qed

lemma single_flight_step:
  "single_flight s \<Longrightarrow> admissible s a \<Longrightarrow> single_flight (step s a)"
  by (cases a) (simp_all add: single_flight_playAudio single_flight_stop single_flight_dispatch)

lemma single_flight_run:
  "single_flight s \<Longrightarrow> natural s tr \<Longrightarrow> single_flight (run s tr)"
  by (induction tr arbitrary: s) (simp_all add: single_flight_step)

lemma natural_take: "natural s tr \<Longrightarrow> natural s (take k tr)"
proof (induction tr arbitrary: s k)
  case (Cons a tr)
  then show ?case by (cases k) simp_all
qed simp

lemma sounding_single:
  assumes "single_flight s"
  shows "length (sounding s) \<le> 1" "set (sounding s) \<subseteq> set_option (currentSource s)"
proof -
  show sub: "set (sounding s) \<subseteq> set_option (currentSource s)"
    using single_flight_playing [OF assms] by (auto simp: sounding_def)
  have "distinct (sounding s)" by (simp add: sounding_def)
  then have "length (sounding s) = card (set (sounding s))"
    by (simp add: distinct_card)
  also have "\<dots> \<le> card (set_option (currentSource s))"
    using sub by (intro card_mono) simp_all
  also have "\<dots> \<le> 1" by (cases "currentSource s") simp_all
  finally show "length (sounding s) \<le> 1" .
qed

lemma playAudio_supersedes:
  assumes sf: "single_flight s" and c: "currentSource s = Some i"
  shows "i \<notin> set (sounding (playAudio p b cb s))"
proof -
  from sf c have i: "i < length (nodes s)" by (rule single_flight_bound)
  have ns: "nstate (nodes (stop s) ! i) \<noteq> Playing" using sf i by (rule stop_silent)
  have "i < length (nodes (playAudio p b cb s)) \<Longrightarrow> nstate (nodes (playAudio p b cb s) ! i) \<noteq> Playing"
    using playAudio_try_shape [of p b cb "stop s"] i ns
    by (auto simp: playAudio_def nth_append split: option.splits)
  then show ?thesis by (simp add: sounding_def)
qed

text \<open>
  In a natural run of awaited calls from a fresh service, at every instant at most one
  node sounds, and it is the node \<^verbatim>\<open>currentSource\<close> holds; a \<^verbatim>\<open>playAudio\<close> issued while a
  playback is active leaves the old node silent, whatever becomes of the new one.
\<close>

lemma single_playback_natural:
  assumes "natural initial tr"
  shows "length (sounding (run initial (take k tr))) \<le> 1
       \<and> set (sounding (run initial (take k tr))) \<subseteq> set_option (currentSource (run initial (take k tr)))
       \<and> (\<forall>i. currentSource (run initial (take k tr)) = Some i \<longrightarrow>
             i \<notin> set (sounding (playAudio p b cb (run initial (take k tr)))))"
proof -
  have "single_flight (run initial (take k tr))"
    using assms by (intro single_flight_run single_flight_initial natural_take)
  then show ?thesis
    using sounding_single playAudio_supersedes by blast
qed

text \<open>The definitions a concrete run of the service unfolds.\<close>

lemmas audio_defs = initial_def browser_def playAudio_def playAudio_try_def stop_def getContext_def
    decodeBase64_def decodeAudioData_def createBuffer_def Int16Array_def dispatch_ended_def onended_handler_def
    invoke_def node_stop_def sounding_def Let_def

section \<open>Who invokes the completion callback\<close>

text \<open>
  C2, refuted as stated.  After a successful play with callback 7, an explicit
  \<^verbatim>\<open>stop()\<close> halts the node and clears the handle but invokes nothing: \<^verbatim>\<open>stop\<close> has no
  call of the callback.  The callback runs only if the platform afterwards dispatches
  \<^verbatim>\<open>ended\<close> to the halted node, and then it runs just the same when the node was halted
  by a superseding \<^verbatim>\<open>playAudio\<close>, whose first statement is \<^verbatim>\<open>this.stop()\<close>.  Either
  way the two stops are not told apart.
\<close>

theorem stop_callback_counterexample:
  "sounding (run initial [Play browser ''ab'' (Some 7)]) = [0]
   \<and> currentSource (run initial [Play browser ''ab'' (Some 7)]) = Some 0
   \<and> fired (run initial [Play browser ''ab'' (Some 7), Stop]) = []
   \<and> sounding (run initial [Play browser ''ab'' (Some 7), Stop]) = []
   \<and> currentSource (run initial [Play browser ''ab'' (Some 7), Stop]) = None
   \<and> fired (run initial [Play browser ''ab'' (Some 7), Stop, EndedEvent 0]) = [7]
   \<and> fired (run initial [Play browser ''ab'' (Some 7), Play browser ''cd'' (Some 8), EndedEvent 0]) = [7]"
  by (simp add: audio_defs)

lemma stop_idem: "stop (stop s) = stop s"
  by (simp add: stop_def split: option.splits)

lemma sounding_stop:
  "sounding (stop s) = filter (\<lambda>i. currentSource s \<noteq> Some i) (sounding s)"
proof -
  have "filter (\<lambda>i. nstate (nodes (stop s) ! i) = Playing) [0..<length (nodes s)] =
      filter (\<lambda>i. nstate (nodes s ! i) = Playing \<and> currentSource s \<noteq> Some i) [0..<length (nodes s)]"
    by (rule filter_cong) (auto simp: stop_nstate)
  then show ?thesis by (simp add: sounding_def)
qed

lemma stop_onended: "map onended (nodes (stop s)) = map onended (nodes s)"
  by (auto simp: stop_def node_stop_def nth_update_total list_eq_iff_nth_eq split: option.splits)

lemma playAudio_fired:
  "fired (playAudio p b cb s) =
     fired s @ (case snd (playAudio_try p b cb (stop s)) of
                  None \<Rightarrow> []
                | Some e \<Rightarrow> (case cb of None \<Rightarrow> [] | Some c \<Rightarrow> [c]))"
  by (cases rule: playAudio_try_cases [of p b cb "stop s"])
     (auto simp: playAudio_def invoke_fired)

lemma stop_other:
  "i < length (nodes s) \<Longrightarrow> currentSource s \<noteq> Some i \<Longrightarrow> nodes (stop s) ! i = nodes s ! i"
  by (auto simp: stop_def nth_update_total split: option.splits)

lemma natural_completion:
  assumes "currentSource s = Some j" "j < length (nodes s)" "nstate (nodes s ! j) = Playing"
  shows "fired (dispatch_ended j s) =
           fired s @ (case onended (nodes s ! j) of None \<Rightarrow> [] | Some c \<Rightarrow> [c])"
    and "currentSource (dispatch_ended j s) = None"
    and "dispatch_ended j (dispatch_ended j s) = dispatch_ended j s"
  using assms by (simp_all add: dispatch_ended_def onended_handler_def invoke_fired)

text \<open>
  C2, amended.  \<^verbatim>\<open>stop\<close> never invokes a completion callback: it halts the node the
  service holds, leaves every other node as it is, sounding or not, and clears the
  handle; with no handle held it changes nothing.  The stop at the head of \<^verbatim>\<open>playAudio\<close>
  is the same method, so superseding a playback is an explicit stop followed by the play.
  \<^verbatim>\<open>playAudio\<close> invokes a callback only when its \<^verbatim>\<open>try\<close> block throws, and then the new
  one, once; the handler installed on a node invokes the callback of that node's play,
  once each time it runs.  On natural completion, when \<^verbatim>\<open>ended\<close> comes to the sounding
  node the service holds, the callback of that play is invoked exactly once and the handle
  is cleared.
\<close>

theorem stop_invokes_nothing:
  "fired (stop s) = fired s
   \<and> currentSource (stop s) = None
   \<and> sounding (stop s) = filter (\<lambda>i. currentSource s \<noteq> Some i) (sounding s)
   \<and> length (nodes (stop s)) = length (nodes s)
   \<and> (i < length (nodes s) \<and> currentSource s \<noteq> Some i \<longrightarrow> nodes (stop s) ! i = nodes s ! i)
   \<and> map onended (nodes (stop s)) = map onended (nodes s)
   \<and> (currentSource s = None \<longrightarrow> stop s = s)
   \<and> playAudio p b cb s = playAudio p b cb (stop s)
   \<and> fired (playAudio p b cb s) =
       fired s @ (case snd (playAudio_try p b cb (stop s)) of
                    None \<Rightarrow> []
                  | Some e \<Rightarrow> (case cb of None \<Rightarrow> [] | Some c \<Rightarrow> [c]))
   \<and> fired (onended_handler cb s) = fired s @ (case cb of None \<Rightarrow> [] | Some c \<Rightarrow> [c])
   \<and> (currentSource s = Some j \<and> j < length (nodes s) \<and> nstate (nodes s ! j) = Playing \<longrightarrow>
         fired (dispatch_ended j s) =
           fired s @ (case onended (nodes s ! j) of None \<Rightarrow> [] | Some c \<Rightarrow> [c])
       \<and> currentSource (dispatch_ended j s) = None
       \<and> dispatch_ended j (dispatch_ended j s) = dispatch_ended j s)"
proof -
  have "currentSource s = None \<longrightarrow> stop s = s" by (simp add: stop_def)
  moreover have "playAudio p b cb s = playAudio p b cb (stop s)"
    by (simp add: playAudio_def stop_idem)
  moreover have "fired (onended_handler cb s) = fired s @ (case cb of None \<Rightarrow> [] | Some c \<Rightarrow> [c])"
    by (simp add: onended_handler_def invoke_fired)
  moreover have "fired (stop s) = fired s" "currentSource (stop s) = None"
    "length (nodes (stop s)) = length (nodes s)" by simp_all
  ultimately show ?thesis
    using playAudio_fired [of p b cb s] sounding_stop [of s] stop_onended [of s]
      stop_other [of i s] natural_completion [of s j]
    by blast
qed

theorem stop_invokes_nothing_witness:
  "sounding (run initial [Play browser ''ab'' (Some 7)]) = [0]
   \<and> sounding (stop (run initial [Play browser ''ab'' (Some 7)])) = []
   \<and> currentSource (stop (run initial [Play browser ''ab'' (Some 7)])) = None
   \<and> fired (stop (run initial [Play browser ''ab'' (Some 7)])) = []
   \<and> map onended (nodes (stop (run initial [Play browser ''ab'' (Some 7)]))) = [Some 7]
   \<and> stop initial = initial
   \<and> fired (playAudio browser ''cd'' (Some 8) (run initial [Play browser ''ab'' (Some 7)])) = []
   \<and> fired (playAudio browser ''cde'' (Some 8) (run initial [Play browser ''ab'' (Some 7)])) = [8]
   \<and> fired (onended_handler (Some 8) (run initial [Play browser ''ab'' (Some 7)])) = [8]
   \<and> fired (dispatch_ended 0 (run initial [Play browser ''ab'' (Some 7)])) = [7]
   \<and> currentSource (dispatch_ended 0 (run initial [Play browser ''ab'' (Some 7)])) = None
   \<and> currentSource (run initial [Play browser ''ab'' (Some 7), Play browser ''cd'' (Some 8)]) = Some 1
   \<and> nodes (stop (run initial [Play browser ''ab'' (Some 7), Play browser ''cd'' (Some 8)])) ! 0
       = nodes (run initial [Play browser ''ab'' (Some 7), Play browser ''cd'' (Some 8)]) ! 0"
proof -
  let ?s = "run initial [Play browser ''ab'' (Some 7)]"
  let ?s2 = "run initial [Play browser ''ab'' (Some 7), Play browser ''cd'' (Some 8)]"
  have f: "fired ?s = []" by (simp add: audio_defs)
  have so: "sounding ?s = [0]" by (simp add: audio_defs)
  have cs: "currentSource ?s = Some 0" by (simp add: audio_defs)
  have on: "map onended (nodes ?s) = [Some 7]" by (simp add: audio_defs)
  have held: "currentSource ?s = Some 0 \<and> 0 < length (nodes ?s) \<and> nstate (nodes ?s ! 0) = Playing"
    by (simp add: audio_defs)
  have own: "onended (nodes ?s ! 0) = Some 7" by (simp add: audio_defs)
  have other: "0 < length (nodes ?s2) \<and> currentSource ?s2 \<noteq> Some 0"
    by (simp add: audio_defs)
  have cs2: "currentSource ?s2 = Some 1" by (simp add: audio_defs)
  have c: "currentSource initial = None" by (simp add: initial_def)
  have t1: "snd (playAudio_try browser ''cd'' (Some 8) (stop ?s)) = None"
    by (simp add: audio_defs)
  have t2: "snd (playAudio_try browser ''cde'' (Some 8) (stop ?s)) = Some RangeError"
    by (simp add: audio_defs)
  note A = stop_invokes_nothing [of ?s 0 browser "''cd''" "Some 8" 0]
  note B = stop_invokes_nothing [of ?s 0 browser "''cde''" "Some 8" 0]
  note C = stop_invokes_nothing [of initial 0 browser "''cd''" "Some 8" 0]
  note D = stop_invokes_nothing [of ?s2 0 browser "''cd''" "Some 8" 0]
  from A have "fired (stop ?s) = fired ?s" by blast
  then have 1: "fired (stop ?s) = []" by (simp only: f)
  from C c have 2: "stop initial = initial" by blast
  from A have "fired (playAudio browser ''cd'' (Some 8) ?s) =
      fired ?s @ (case snd (playAudio_try browser ''cd'' (Some 8) (stop ?s)) of
                    None \<Rightarrow> [] | Some e \<Rightarrow> (case Some 8 of None \<Rightarrow> [] | Some c \<Rightarrow> [c]))"
    by blast
  then have 3: "fired (playAudio browser ''cd'' (Some 8) ?s) = []"
    by (simp only: f t1 option.case append_Nil)
  from B have "fired (playAudio browser ''cde'' (Some 8) ?s) =
      fired ?s @ (case snd (playAudio_try browser ''cde'' (Some 8) (stop ?s)) of
                    None \<Rightarrow> [] | Some e \<Rightarrow> (case Some 8 of None \<Rightarrow> [] | Some c \<Rightarrow> [c]))"
    by blast
  then have 4: "fired (playAudio browser ''cde'' (Some 8) ?s) = [8]"
    by (simp only: f t2 option.case append_Nil)
  from A have "fired (onended_handler (Some 8) ?s) =
      fired ?s @ (case Some 8 of None \<Rightarrow> [] | Some c \<Rightarrow> [c])"
    by blast
  then have 5: "fired (onended_handler (Some 8) ?s) = [8]"
    by (simp only: f option.case append_Nil)
  from A have "sounding (stop ?s) = filter (\<lambda>i. currentSource ?s \<noteq> Some i) (sounding ?s)"
    by blast
  then have 6: "sounding (stop ?s) = []"
    by (simp only: so cs) simp
  from A have 7: "currentSource (stop ?s) = None" by blast
  from A have "map onended (nodes (stop ?s)) = map onended (nodes ?s)" by blast
  then have 8: "map onended (nodes (stop ?s)) = [Some 7]" by (simp only: on)
  from A held have "fired (dispatch_ended 0 ?s) =
      fired ?s @ (case onended (nodes ?s ! 0) of None \<Rightarrow> [] | Some c \<Rightarrow> [c])"
    by blast
  then have 9: "fired (dispatch_ended 0 ?s) = [7]"
    by (simp only: f own option.case append_Nil)
  from A held have 10: "currentSource (dispatch_ended 0 ?s) = None" by blast
  from D other have 11: "nodes (stop ?s2) ! 0 = nodes ?s2 ! 0" by blast
  from so 1 2 3 4 5 6 7 8 9 10 cs2 11 show ?thesis by blast
qed

section \<open>Failure of a play\<close>

lemma getContext_stop: "isl (getContext p (stop s)) = isl (getContext p s)"
  by (simp add: getContext_def)

lemma failing_try:
  assumes "acquisition_or_decoding_fails p b s"
  shows "\<exists>s' e. playAudio_try p b cb s = (s', Some e) \<and> nodes s' = nodes s
           \<and> currentSource s' = currentSource s \<and> fired s' = fired s"
  using assms
  by (auto simp: acquisition_or_decoding_fails_def playAudio_try_def getContext_def
      split: sum.splits if_splits)

text \<open>
  When acquiring the context or decoding the payload fails in an awaited call,
  \<^verbatim>\<open>playAudio\<close> invokes \<^verbatim>\<open>onEnded\<close> (if one was given) in the same step, leaves
  \<^verbatim>\<open>currentSource\<close> null and creates no node; the node the service held has been halted,
  and every other node sounds on if it sounded.
\<close>

lemma failed_play_awaited:
  assumes "acquisition_or_decoding_fails p b s"
  shows "fired (playAudio p b onEnded s) = fired s @ (case onEnded of None \<Rightarrow> [] | Some cb \<Rightarrow> [cb])"
    and "currentSource (playAudio p b onEnded s) = None"
    and "nodes (playAudio p b onEnded s) = nodes (stop s)"
    and "sounding (playAudio p b onEnded s) = filter (\<lambda>i. currentSource s \<noteq> Some i) (sounding s)"
proof -
  have "acquisition_or_decoding_fails p b (stop s)"
    using assms by (simp add: acquisition_or_decoding_fails_def getContext_stop)
  from failing_try [OF this, of onEnded] obtain s' e where
    t: "playAudio_try p b onEnded (stop s) = (s', Some e)" and n: "nodes s' = nodes (stop s)"
    and c: "currentSource s' = currentSource (stop s)" and f: "fired s' = fired (stop s)"
    by blast
  have p: "playAudio p b onEnded s = invoke onEnded s'"
    by (simp add: playAudio_def t)
  show "fired (playAudio p b onEnded s) = fired s @ (case onEnded of None \<Rightarrow> [] | Some cb \<Rightarrow> [cb])"
    using f by (simp add: p invoke_fired)
  show "currentSource (playAudio p b onEnded s) = None" using c by (simp add: p)
  show n': "nodes (playAudio p b onEnded s) = nodes (stop s)" using n by (simp add: p)
  have "sounding (playAudio p b onEnded s) = sounding (stop s)"
    by (simp add: sounding_def n')
  then show "sounding (playAudio p b onEnded s) = filter (\<lambda>i. currentSource s \<noteq> Some i) (sounding s)"
    by (simp add: sounding_stop)
qed
section \<open>Submitting an answer\<close>

text \<open>The definitions a concrete session unfolds.\<close>


lemmas session_defs = mounted_def initial_session_def startInterview_def initialQuestionArrives_def
  handlePlayAudio_def speechArrives_def after_audio_def audioEnded_def handleSendMessage_def
  validationArrives_def questionArrives_def clickSend_def pressEnter_def changeInput_def
  clickReadAloud_def sendButton_disabled_def textarea_disabled_def unhandled_def drop_nth_def
  attach_def trim_def is_space_def digit_def decimal.simps setIsPlaying_false_def good_def
  user_turn_def ai_turn_def

text \<open>
  C9.  With a non-empty trimmed answer, \<^verbatim>\<open>handleSendMessage\<close> takes the text of the last
  turn of the transcript as the question to evaluate: the request it sends is
  \<^verbatim>\<open>validateAnswer\<close> of that text and the answer.  Nothing checks that the transcript has a
  last turn: on an empty transcript the read faults with a TypeError, after the empty-answer
  check and before any state is set or any request is sent.
\<close>

theorem empty_transcript_faults:
  assumes "trim (inputText st) \<noteq> []"
  shows "(messages st = [] \<longrightarrow> handleSendMessage now st = Inl TypeError)
       \<and> (messages st \<noteq> [] \<longrightarrow>
            (\<exists>st'. handleSendMessage now st = Inr st'
               \<and> calls st' = calls st @ [ValidateAnswer (msg_text (last (messages st))) (inputText st)]))"
  using assms by (simp add: handleSendMessage_def user_turn_def Let_def)

lemma answer_typed_value:
  "answer_typed =
    \<lparr>selectedSkills = [],
      messages = [\<lparr>msg_id = ''init'', role = AI, msg_text = ''Q1'', feedback = None, score = None\<rparr>],
      inputText = ''a1'', isLoading = False, isPlaying = True, audioService = initial,
      startInterview_pending = False, cycles = [], speech_pending = 1,
      calls = [GenerateQuestion [] [], GenerateSpeech ''Q1'']\<rparr>"
  by (simp add: answer_typed_def session_defs Let_def)

theorem empty_transcript_faults_witness:
  "handleSendMessage 5 ((initial_session [])\<lparr>inputText := ''hello''\<rparr>) = Inl TypeError
   \<and> calls (unhandled answer_typed (handleSendMessage 100 answer_typed)) =
       [GenerateQuestion [] [], GenerateSpeech ''Q1'', ValidateAnswer ''Q1'' ''a1'']"
proof -
  have "trim (inputText ((initial_session [])\<lparr>inputText := ''hello''\<rparr>)) \<noteq> []"
    by (simp add: trim_def is_space_def)
  from empty_transcript_faults [OF this, of 5]
  have 1: "handleSendMessage 5 ((initial_session [])\<lparr>inputText := ''hello''\<rparr>) = Inl TypeError"
    by (simp add: initial_session_def)
  have t: "trim (inputText answer_typed) \<noteq> []"
    by (simp add: answer_typed_value trim_def is_space_def)
  have m: "messages answer_typed \<noteq> []" by (simp add: answer_typed_value)
  from empty_transcript_faults [OF t, of 100] m obtain st' where
    "handleSendMessage 100 answer_typed = Inr st'"
    "calls st' = calls answer_typed @
       [ValidateAnswer (msg_text (last (messages answer_typed))) (inputText answer_typed)]"
    by blast
  then have 2: "calls (unhandled answer_typed (handleSendMessage 100 answer_typed)) =
       [GenerateQuestion [] [], GenerateSpeech ''Q1'', ValidateAnswer ''Q1'' ''a1'']"
    by (simp add: unhandled_def answer_typed_value)
  from 1 2 show ?thesis by blast
qed

text \<open>
  C5, refuted as stated.  When the evaluation of an answer is rejected, \<^verbatim>\<open>finally\<close>
  clears \<^verbatim>\<open>isLoading\<close> while the last turn is the user's.  The session is then not in
  \<^verbatim>\<open>AWAITING_ANSWER\<close>, yet the controls are enabled and a further non-empty answer is
  accepted: the transcript grows and the session turns busy.  And the handler called on
  a busy session with a non-empty answer, past the disabled controls, accepts it as well:
  it has no check of \<^verbatim>\<open>isLoading\<close>.
\<close>

theorem submit_accepted_counterexample:
  "\<not> AWAITING_ANSWER after_failed_evaluation
   \<and> \<not> isLoading after_failed_evaluation
   \<and> trim (inputText after_failed_evaluation) = ''a2''
   \<and> map role (messages after_failed_evaluation) = [AI, USER]
   \<and> map msg_text (messages (clickSend 300 after_failed_evaluation)) = [''Q1'', ''a1'', ''a2'']
   \<and> isLoading (clickSend 300 after_failed_evaluation)
   \<and> isLoading (answer_submitted\<lparr>inputText := ''a2''\<rparr>)
   \<and> map msg_text (messages (unhandled (answer_submitted\<lparr>inputText := ''a2''\<rparr>)
         (handleSendMessage 300 (answer_submitted\<lparr>inputText := ''a2''\<rparr>)))) = [''Q1'', ''a1'', ''a2'']"
  by (simp add: after_failed_evaluation_def answer_submitted_def AWAITING_ANSWER_def session_defs Let_def)

text \<open>
  C5, amended.  A submission, by the send button or by Enter in the text area, changes
  nothing whenever the trimmed answer is empty, or the session is busy (\<^verbatim>\<open>isLoading\<close>, which
  disables both controls), or the transcript is empty (the handler faults).  The handler
  itself tests the answer only; what keeps a busy session from a second cycle is the
  disabled controls.
\<close>

theorem submit_rejected:
  assumes "trim (inputText st) = [] \<or> isLoading st \<or> messages st = []"
  shows "clickSend now st = st \<and> pressEnter now st = st"
  using assms
  by (auto simp: clickSend_def pressEnter_def sendButton_disabled_def textarea_disabled_def
      unhandled_def handleSendMessage_def)

theorem submit_rejected_witness:
  "clickSend 7 ((mounted [])\<lparr>inputText := ''x''\<rparr>) = (mounted [])\<lparr>inputText := ''x''\<rparr>
   \<and> pressEnter 7 ((mounted [])\<lparr>inputText := ''x''\<rparr>) = (mounted [])\<lparr>inputText := ''x''\<rparr>
   \<and> isLoading ((mounted [])\<lparr>inputText := ''x''\<rparr>)"
proof -
  have b: "isLoading ((mounted [])\<lparr>inputText := ''x''\<rparr>)"
    by (simp add: mounted_def startInterview_def)
  then have "trim (inputText ((mounted [])\<lparr>inputText := ''x''\<rparr>)) = []
      \<or> isLoading ((mounted [])\<lparr>inputText := ''x''\<rparr>)
      \<or> messages ((mounted [])\<lparr>inputText := ''x''\<rparr>) = []" by blast
  from submit_rejected [OF this, of 7] b show ?thesis by blast
qed

section \<open>Toggling the narration\<close>








section \<open>What each step does to the transcript\<close>

lemma handlePlayAudio_frame [simp]:
  "messages (handlePlayAudio P t st) = messages st"
  "cycles (handlePlayAudio P t st) = cycles st"
  "startInterview_pending (handlePlayAudio P t st) = startInterview_pending st"
  by (simp_all add: handlePlayAudio_def)

lemma after_audio_frame [simp]:
  "messages (after_audio a st) = messages st"
  "cycles (after_audio a st) = cycles st"
  "startInterview_pending (after_audio a st) = startInterview_pending st"
  by (simp_all add: after_audio_def)

lemma speechArrives_frame [simp]:
  "messages (speechArrives d p st) = messages st"
  "cycles (speechArrives d p st) = cycles st"
  "startInterview_pending (speechArrives d p st) = startInterview_pending st"
  by (simp_all add: speechArrives_def Let_def split: option.splits)

lemma audioEnded_frame [simp]:
  "messages (audioEnded i st) = messages st"
  "cycles (audioEnded i st) = cycles st"
  "startInterview_pending (audioEnded i st) = startInterview_pending st"
  by (simp_all add: audioEnded_def)

lemma changeInput_frame [simp]:
  "messages (changeInput v st) = messages st"
  "cycles (changeInput v st) = cycles st"
  "startInterview_pending (changeInput v st) = startInterview_pending st"
  by (simp_all add: changeInput_def)

lemma clickReadAloud_frame [simp]:
  "messages (clickReadAloud k st) = messages st"
  "cycles (clickReadAloud k st) = cycles st"
  "startInterview_pending (clickReadAloud k st) = startInterview_pending st"
  by (simp_all add: clickReadAloud_def)

lemma handleSendMessage_cases:
  obtains (fault) "messages st = []" "handleSendMessage now st = Inl TypeError"
  | (return) "handleSendMessage now st = Inr st"
  | (accept) P where "messages st \<noteq> []" "trim (inputText st) \<noteq> []"
      "handleSendMessage now st =
         Inr (st\<lparr>messages := messages st @ [user_turn now st],
                 inputText := [], isLoading := True,
                 calls := calls st @ [ValidateAnswer (msg_text (last (messages st))) (inputText st)],
                 cycles := cycles st @
                   [\<lparr>userMsg = user_turn now st, closure_messages = messages st,
                     closure_isPlaying = P, phase = AwaitingValidation\<rparr>]\<rparr>)"
proof (cases "trim (inputText st) = []")
  case True
  then have "handleSendMessage now st = Inr st" by (simp add: handleSendMessage_def)
  then show ?thesis by (rule return)
next
  case False
  show ?thesis
  proof (cases "messages st = []")
    case True
    with False have "handleSendMessage now st = Inl TypeError" by (simp add: handleSendMessage_def)
    with True show ?thesis by (rule fault)
  next
    case nonempty: False
    with False show ?thesis
      by (intro accept [of "isPlaying st"]) (simp_all add: handleSendMessage_def user_turn_def Let_def)
  qed
qed

lemma submit_cases:
  assumes "st' = clickSend now st \<or> st' = pressEnter now st"
  obtains (rejected) "st' = st"
  | (accepted) P where "messages st \<noteq> []" "trim (inputText st) \<noteq> []"
      "st' = st\<lparr>messages := messages st @ [user_turn now st],
                 inputText := [], isLoading := True,
                 calls := calls st @ [ValidateAnswer (msg_text (last (messages st))) (inputText st)],
                 cycles := cycles st @
                   [\<lparr>userMsg = user_turn now st, closure_messages = messages st,
                     closure_isPlaying = P, phase = AwaitingValidation\<rparr>]\<rparr>"
proof (cases rule: handleSendMessage_cases [of st now])
  case fault
  with assms have "st' = st"
    by (auto simp: clickSend_def pressEnter_def unhandled_def)
  then show ?thesis by (rule rejected)
next
  case return
  with assms have "st' = st"
    by (auto simp: clickSend_def pressEnter_def unhandled_def)
  then show ?thesis by (rule rejected)
next
  case (accept P)
  show ?thesis
  proof (cases "st' = st")
    case True
    then show ?thesis by (rule rejected)
  next
    case False
    with assms accept(3) have "st' = st\<lparr>messages := messages st @ [user_turn now st],
                 inputText := [], isLoading := True,
                 calls := calls st @ [ValidateAnswer (msg_text (last (messages st))) (inputText st)],
                 cycles := cycles st @
                   [\<lparr>userMsg = user_turn now st, closure_messages = messages st,
                     closure_isPlaying = P, phase = AwaitingValidation\<rparr>]\<rparr>"
      by (auto simp: clickSend_def pressEnter_def unhandled_def split: if_splits)
    with accept(1,2) show ?thesis by (rule accepted)
  qed
qed

lemma initialQuestionArrives_idle:
  "\<not> startInterview_pending st \<Longrightarrow> initialQuestionArrives r st = st"
  by (simp add: initialQuestionArrives_def)

lemma initialQuestionArrives_fields:
  assumes "startInterview_pending st"
  shows "\<not> startInterview_pending (initialQuestionArrives r st)"
    "cycles (initialQuestionArrives r st) = cycles st"
    "messages (initialQuestionArrives (Inl e) st) = messages st"
    "messages (initialQuestionArrives (Inr q) st) =
       [\<lparr>msg_id = ''init'', role = AI, msg_text = q, feedback = None, score = None\<rparr>]"
  using assms by (simp_all add: initialQuestionArrives_def Let_def split: sum.splits)

lemma validationArrives_idle:
  "\<not> enabled AwaitingValidation k st \<Longrightarrow> validationArrives k r st = st"
  by (auto simp: validationArrives_def enabled_def)

lemma validationArrives_fields:
  assumes "enabled AwaitingValidation k st"
  shows "startInterview_pending (validationArrives k r st) = startInterview_pending st"
    "messages (validationArrives k (Inl e) st) = messages st"
    "cycles (validationArrives k (Inl e) st) = drop_nth k (cycles st)"
    "messages (validationArrives k (Inr v) st) =
       map (attach (msg_id (userMsg (cycles st ! k))) v) (messages st)"
    "cycles (validationArrives k (Inr v) st) =
       (cycles st)[k := (cycles st ! k)\<lparr>phase := AwaitingQuestion\<rparr>]"
  using assms by (simp_all add: validationArrives_def enabled_def Let_def split: sum.splits)

lemma questionArrives_idle:
  "\<not> enabled AwaitingQuestion k st \<Longrightarrow> questionArrives k r now st = st"
  by (auto simp: questionArrives_def enabled_def)

lemma questionArrives_fields:
  assumes "enabled AwaitingQuestion k st"
  shows "startInterview_pending (questionArrives k r now st) = startInterview_pending st"
    "cycles (questionArrives k r now st) = drop_nth k (cycles st)"
    "messages (questionArrives k (Inl e) now st) = messages st"
    "messages (questionArrives k (Inr q) now st) = messages st @ [ai_turn now q]"
  using assms
  by (simp_all add: questionArrives_def enabled_def ai_turn_def Let_def split: sum.splits)




section \<open>Suspended submissions and their turns\<close>

lemma core_attach [simp]: "core (attach u v m) = core m"
  by (simp add: core_def attach_def)

lemma evaluated_attach: "evaluated m \<Longrightarrow> evaluated (attach u v m)"
  by (simp add: evaluated_def attach_def)

lemma evaluated_attach_own: "msg_id m = u \<Longrightarrow> evaluated (attach u v m)"
  by (simp add: evaluated_def attach_def)

lemma own_index_phase [simp]: "own_index (c\<lparr>phase := ph\<rparr>) = own_index c"
  by (simp add: own_index_def)

lemma in_order_append: "in_order msgs c \<Longrightarrow> in_order (msgs @ [m]) c"
  by (simp add: in_order_def nth_append)

lemma in_order_attach: "in_order msgs c \<Longrightarrow> in_order (map (attach u v) msgs) c"
  by (simp add: in_order_def evaluated_attach)

lemma in_order_promote:
  assumes "in_order msgs c"
  shows "in_order (map (attach (msg_id (userMsg c)) v) msgs) (c\<lparr>phase := AwaitingQuestion\<rparr>)"
proof -
  from assms have i: "own_index c < length msgs"
    and k: "core (msgs ! own_index c) = core (userMsg c)" and u: "role (userMsg c) = USER"
    by (simp_all add: in_order_def)
  from k have "msg_id (msgs ! own_index c) = msg_id (userMsg c)" by (simp add: core_def)
  then have "evaluated (attach (msg_id (userMsg c)) v (msgs ! own_index c))"
    by (rule evaluated_attach_own)
  with i k u show ?thesis by (simp add: in_order_def)
qed

lemma in_order_evaluated:
  "in_order msgs c \<Longrightarrow> phase c = AwaitingQuestion \<Longrightarrow> evaluated (msgs ! own_index c)"
  by (simp add: in_order_def)

lemma in_order_new:
  "role u = USER \<Longrightarrow>
   in_order (msgs @ [u])
     \<lparr>userMsg = u, closure_messages = msgs, closure_isPlaying = P, phase = AwaitingValidation\<rparr>"
  by (simp add: in_order_def own_index_def)

lemma orderlyI:
  assumes "startInterview_pending st \<Longrightarrow> messages st = []"
    and "\<And>c. c \<in> set (cycles st) \<Longrightarrow> in_order (messages st) c"
  shows "orderly st"
  unfolding orderly_def using assms by blast

lemma orderly_pending: "orderly st \<Longrightarrow> startInterview_pending st \<Longrightarrow> messages st = []"
  unfolding orderly_def by blast

lemma orderly_cycle: "orderly st \<Longrightarrow> c \<in> set (cycles st) \<Longrightarrow> in_order (messages st) c"
  unfolding orderly_def by blast

lemma orderly_no_cycles:
  assumes "orderly st" "messages st = []"
  shows "cycles st = []"
proof (rule ccontr)
  assume "cycles st \<noteq> []"
  then obtain c where c: "c \<in> set (cycles st)" by (cases "cycles st") auto
  from orderly_cycle [OF assms(1) c] assms(2) show False by (simp add: in_order_def)
qed

lemma orderly_frame:
  assumes "orderly st" "messages st' = messages st" "cycles st' = cycles st"
    "startInterview_pending st' = startInterview_pending st"
  shows "orderly st'"
  using assms by (simp add: orderly_def)

lemma set_drop_nth: "c \<in> set (drop_nth k xs) \<Longrightarrow> c \<in> set xs"
  by (auto simp: drop_nth_def dest: in_set_takeD in_set_dropD)

lemma user_turn_role [simp]: "role (user_turn now st) = USER"
  by (simp add: user_turn_def)

lemma orderly_mounted: "orderly (mounted skills)"
  by (simp add: orderly_def mounted_def startInterview_def initial_session_def)

lemma orderly_initial:
  assumes o: "orderly st"
  shows "orderly (initialQuestionArrives r st)"
proof (cases "startInterview_pending st")
  case False
  with o show ?thesis by (simp add: initialQuestionArrives_idle)
next
  case True
  with o have "messages st = []" by (rule orderly_pending)
  with o have "cycles st = []" by (rule orderly_no_cycles)
  with True show ?thesis
    by (intro orderlyI) (simp_all add: initialQuestionArrives_fields)
qed

lemma orderly_submit:
  assumes o: "orderly st" and s: "st' = clickSend now st \<or> st' = pressEnter now st"
  shows "orderly st'"
  using s
proof (cases rule: submit_cases)
  case rejected
  with o show ?thesis by simp
next
  case (accepted P)
  show ?thesis
  proof (rule orderlyI)
    assume "startInterview_pending st'"
    then have "startInterview_pending st" by (simp add: accepted(3))
    with o have "messages st = []" by (rule orderly_pending)
    with accepted(1) show "messages st' = []" by simp
  next
    fix c assume "c \<in> set (cycles st')"
    then consider "c \<in> set (cycles st)"
      | "c = \<lparr>userMsg = user_turn now st, closure_messages = messages st,
               closure_isPlaying = P, phase = AwaitingValidation\<rparr>"
      by (auto simp: accepted(3))
    then show "in_order (messages st') c"
    proof cases
      case 1
      with o have "in_order (messages st) c" by (rule orderly_cycle)
      then show ?thesis by (simp add: accepted(3) in_order_append)
    next
      case 2
      then show ?thesis by (simp add: accepted(3) in_order_new)
    qed
  qed
qed

lemma orderly_validation:
  assumes o: "orderly st"
  shows "orderly (validationArrives k r st)"
proof (cases "enabled AwaitingValidation k st")
  case False
  with o show ?thesis by (simp add: validationArrives_idle)
next
  case True
  then have k: "k < length (cycles st)" by (simp add: enabled_def)
  note f = validationArrives_fields [OF True]
  show ?thesis
  proof (cases r)
    case (Inl e)
    show ?thesis unfolding Inl
    proof (rule orderlyI)
      assume "startInterview_pending (validationArrives k (Inl e) st)"
      with o show "messages (validationArrives k (Inl e) st) = []"
        by (simp add: f orderly_pending)
    next
      fix c assume "c \<in> set (cycles (validationArrives k (Inl e) st))"
      then have "c \<in> set (cycles st)" by (simp add: f set_drop_nth)
      with o show "in_order (messages (validationArrives k (Inl e) st)) c"
        by (simp add: f orderly_cycle)
    qed
  next
    case (Inr v)
    show ?thesis unfolding Inr
    proof (rule orderlyI)
      assume "startInterview_pending (validationArrives k (Inr v) st)"
      with o show "messages (validationArrives k (Inr v) st) = []"
        by (simp add: f orderly_pending)
    next
      fix c assume "c \<in> set (cycles (validationArrives k (Inr v) st))"
      then consider "c \<in> set (cycles st)" | "c = (cycles st ! k)\<lparr>phase := AwaitingQuestion\<rparr>"
        using set_update_subset_insert [of "cycles st" k] by (auto simp: f)
      then show "in_order (messages (validationArrives k (Inr v) st)) c"
      proof cases
        case 1
        with o have "in_order (messages st) c" by (rule orderly_cycle)
        then show ?thesis by (simp add: f in_order_attach)
      next
        case 2
        from k have "cycles st ! k \<in> set (cycles st)" by simp
        with o have "in_order (messages st) (cycles st ! k)" by (rule orderly_cycle)
        then show ?thesis unfolding 2 by (simp add: f in_order_promote)
      qed
    qed
  qed
qed

lemma orderly_question:
  assumes o: "orderly st"
  shows "orderly (questionArrives k r now st)"
proof (cases "enabled AwaitingQuestion k st")
  case False
  with o show ?thesis by (simp add: questionArrives_idle)
next
  case True
  then have k: "k < length (cycles st)" by (simp add: enabled_def)
  then have "cycles st \<noteq> []" by auto
  with o have ne: "messages st \<noteq> []" using orderly_no_cycles by blast
  note f = questionArrives_fields [OF True]
  show ?thesis
  proof (rule orderlyI)
    assume "startInterview_pending (questionArrives k r now st)"
    then have "startInterview_pending st" by (simp add: f)
    with o have "messages st = []" by (rule orderly_pending)
    with ne show "messages (questionArrives k r now st) = []" by simp
  next
    fix c assume "c \<in> set (cycles (questionArrives k r now st))"
    then have "c \<in> set (cycles st)" by (simp add: f set_drop_nth)
    with o have "in_order (messages st) c" by (rule orderly_cycle)
    then show "in_order (messages (questionArrives k r now st)) c"
      by (cases r) (simp_all add: f in_order_append)
  qed
qed

lemma orderly_react: "orderly st \<Longrightarrow> orderly (react st e)"
proof (cases e)
  case (InitialQuestionArrives r)
  assume "orderly st" then show ?thesis unfolding InitialQuestionArrives by (simp add: orderly_initial)
next
  case (ClickSend now)
  assume "orderly st" then show ?thesis unfolding ClickSend
    using orderly_submit [of st "clickSend now st" now] by simp
next
  case (PressEnter now)
  assume "orderly st" then show ?thesis unfolding PressEnter
    using orderly_submit [of st "pressEnter now st" now] by simp
next
  case (ValidationArrives k r)
  assume "orderly st" then show ?thesis unfolding ValidationArrives by (simp add: orderly_validation)
next
  case (QuestionArrives k r now)
  assume "orderly st" then show ?thesis unfolding QuestionArrives by (simp add: orderly_question)
qed (auto intro: orderly_frame)

lemma orderly_interview: "orderly st \<Longrightarrow> orderly (interview st tr)"
  by (induction tr arbitrary: st) (simp_all add: orderly_react)

lemma interview_append: "interview st (xs @ ys) = interview (interview st xs) ys"
  by (induction xs arbitrary: st) simp_all




section \<open>The transcript only grows\<close>

lemma evolves_refl [simp]: "evolves m m"
  by (simp add: evolves_def)

lemma evolves_list_refl [simp]: "list_all2 evolves xs xs"
  by (simp add: list_all2_refl)

lemma evolves_same: "list_all2 evolves xs (take (length xs) xs)"
  by (simp add: list_all2_conv_all_nth)

lemma evolves_append: "list_all2 evolves xs (take (length xs) (xs @ ys))"
  by (simp add: list_all2_conv_all_nth)

lemma evolves_attach:
  assumes "role m = USER" "feedback m = None" "score m = None"
  shows "evolves m (attach u v m)"
  using assms by (simp add: evolves_def first_attachment_def attach_def evaluated_def)

lemma evolves_map_attach:
  assumes "\<And>m. m \<in> set msgs \<Longrightarrow> msg_id m = u \<Longrightarrow> role m = USER \<and> feedback m = None \<and> score m = None"
  shows "list_all2 evolves msgs (take (length msgs) (map (attach u v) msgs))"
proof -
  have "evolves (msgs ! j) (attach u v (msgs ! j))" if "j < length msgs" for j
  proof (cases "msg_id (msgs ! j) = u")
    case True
    with assms [of "msgs ! j"] that show ?thesis by (intro evolves_attach) simp_all
  next
    case False
    then show ?thesis by (simp add: attach_def)
  qed
  then show ?thesis by (simp add: list_all2_conv_all_nth)
qed

lemma evolves_trans:
  assumes "evolves a b" "evolves b c"
  shows "evolves a c"
  using assms by (auto simp: evolves_def first_attachment_def evaluated_def)

lemma evolves_take_trans:
  assumes xy: "list_all2 evolves xs (take (length xs) ys)"
    and yz: "list_all2 evolves ys (take (length ys) zs)"
  shows "list_all2 evolves xs (take (length xs) zs)"
proof -
  from xy have l1: "length xs \<le> length ys"
    by (auto dest: list_all2_lengthD)
  from yz have l2: "length ys \<le> length zs"
    by (auto dest: list_all2_lengthD)
  have "evolves (xs ! j) (zs ! j)" if j: "j < length xs" for j
  proof -
    from xy j l1 have "evolves (xs ! j) (ys ! j)" by (auto simp: list_all2_conv_all_nth)
    moreover from yz j l1 l2 have "evolves (ys ! j) (zs ! j)" by (auto simp: list_all2_conv_all_nth)
    ultimately show ?thesis by (rule evolves_trans)
  qed
  with l1 l2 show ?thesis by (simp add: list_all2_conv_all_nth)
qed

lemma same_id_same_turn:
  assumes d: "distinct (map msg_id msgs)" and i: "i < length msgs" and m: "m \<in> set msgs"
    and e: "msg_id m = msg_id (msgs ! i)"
  shows "m = msgs ! i"
proof -
  from d have "inj_on msg_id (set msgs)" by (simp add: distinct_map)
  with m e i show ?thesis by (auto dest: inj_onD)
qed

lemma distinct_drop_nth:
  assumes "distinct (map f xs)"
  shows "distinct (map f (drop_nth k xs))"
proof -
  have "set (take k (map f xs)) \<inter> set (drop (Suc k) (map f xs)) = {}"
    using assms by (intro set_take_disj_set_drop_if_distinct) simp_all
  with assms show ?thesis
    by (simp add: drop_nth_def take_map [symmetric] drop_map [symmetric] del: take_map drop_map)
qed

lemma tidyI:
  assumes "orderly st" "distinct (map msg_id (messages st))" "distinct (map own_index (cycles st))"
    and "\<And>c. c \<in> set (cycles st) \<Longrightarrow> unevaluated (messages st) c"
  shows "tidy st"
  unfolding tidy_def using assms by blast

lemma tidy_orderly: "tidy st \<Longrightarrow> orderly st"
  and tidy_ids: "tidy st \<Longrightarrow> distinct (map msg_id (messages st))"
  and tidy_indices: "tidy st \<Longrightarrow> distinct (map own_index (cycles st))"
  and tidy_cycle: "tidy st \<Longrightarrow> c \<in> set (cycles st) \<Longrightarrow> unevaluated (messages st) c"
  unfolding tidy_def by blast+

lemma tidy_frame:
  assumes "tidy st" "messages st' = messages st" "cycles st' = cycles st"
    "startInterview_pending st' = startInterview_pending st"
  shows "tidy st'"
  using assms by (simp add: tidy_def orderly_def)

lemma tidy_mounted: "tidy (mounted skills)"
  by (simp add: tidy_def orderly_def mounted_def startInterview_def initial_session_def)

lemma unevaluated_append: "own_index c < length msgs \<Longrightarrow> unevaluated msgs c \<Longrightarrow> unevaluated (msgs @ [m]) c"
  by (simp add: unevaluated_def nth_append)




lemma tidy_initial:
  assumes t: "tidy st"
  shows "tidy (initialQuestionArrives r st)"
    "list_all2 evolves (messages st) (take (length (messages st)) (messages (initialQuestionArrives r st)))"
proof -
  have "tidy (initialQuestionArrives r st)
    \<and> list_all2 evolves (messages st) (take (length (messages st)) (messages (initialQuestionArrives r st)))"
  proof (cases "startInterview_pending st")
    case False
    with t show ?thesis by (simp add: initialQuestionArrives_idle evolves_same)
  next
    case True
    from t have o: "orderly st" by (rule tidy_orderly)
    from o True have m: "messages st = []" by (rule orderly_pending)
    with o have c: "cycles st = []" by (rule orderly_no_cycles)
    have "tidy (initialQuestionArrives r st)"
    proof (rule tidyI)
      show "orderly (initialQuestionArrives r st)" using o by (rule orderly_initial)
      show "distinct (map msg_id (messages (initialQuestionArrives r st)))"
        using True m by (cases r) (simp_all add: initialQuestionArrives_fields)
      show "distinct (map own_index (cycles (initialQuestionArrives r st)))"
        using True c by (simp add: initialQuestionArrives_fields)
      show "unevaluated (messages (initialQuestionArrives r st)) c'"
        if "c' \<in> set (cycles (initialQuestionArrives r st))" for c'
        using that True c by (simp add: initialQuestionArrives_fields)
    qed
    with m show ?thesis by simp
  qed
  then show "tidy (initialQuestionArrives r st)"
    "list_all2 evolves (messages st) (take (length (messages st)) (messages (initialQuestionArrives r st)))"
    by simp_all
qed

lemma tidy_submit:
  assumes t: "tidy st" and s: "st' = clickSend now st \<or> st' = pressEnter now st"
    and fr: "decimal now \<notin> set (map msg_id (messages st))"
  shows "tidy st'" "list_all2 evolves (messages st) (take (length (messages st)) (messages st'))"
proof -
  from t have o: "orderly st" by (rule tidy_orderly)
  have o': "orderly st'" using o s by (rule orderly_submit)
  have "tidy st' \<and> list_all2 evolves (messages st) (take (length (messages st)) (messages st'))"
    using s
  proof (cases rule: submit_cases)
    case rejected
    with t show ?thesis by (simp add: evolves_same)
  next
    case (accepted P)
    let ?new = "\<lparr>userMsg = user_turn now st, closure_messages = messages st,
               closure_isPlaying = P, phase = AwaitingValidation\<rparr>"
    have m': "messages st' = messages st @ [user_turn now st]"
      and c': "cycles st' = cycles st @ [?new]"
      by (simp_all add: accepted(3))
    have old: "own_index c < length (messages st)" if "c \<in> set (cycles st)" for c
      using orderly_cycle [OF o that] by (simp add: in_order_def)
    have "tidy st'"
    proof (rule tidyI)
      show "orderly st'" by (rule o')
      show "distinct (map msg_id (messages st'))"
        using tidy_ids [OF t] fr by (simp add: m' user_turn_def)
      show "distinct (map own_index (cycles st'))"
      proof -
        have n: "own_index ?new = length (messages st)" by (simp add: own_index_def)
        have "length (messages st) \<notin> own_index ` set (cycles st)"
          using old by fastforce
        with tidy_indices [OF t] show ?thesis by (simp add: c' n)
      qed
      show "unevaluated (messages st') c" if "c \<in> set (cycles st')" for c
      proof -
        from that consider "c \<in> set (cycles st)" | "c = ?new" by (auto simp: c')
        then show ?thesis
        proof cases
          case 1
          with old tidy_cycle [OF t] show ?thesis by (simp add: m' unevaluated_append)
        next
          case 2
          then show ?thesis by (simp add: m' unevaluated_def own_index_def user_turn_def)
        qed
      qed
    qed
    then show ?thesis by (simp add: m' evolves_append)
  qed
  then show "tidy st'" "list_all2 evolves (messages st) (take (length (messages st)) (messages st'))"
    by simp_all
qed

lemma tidy_question:
  assumes t: "tidy st" and fr: "decimal (now + 1) \<notin> set (map msg_id (messages st))"
  shows "tidy (questionArrives k r now st)"
    "list_all2 evolves (messages st) (take (length (messages st)) (messages (questionArrives k r now st)))"
proof -
  from t have o: "orderly st" by (rule tidy_orderly)
  have "tidy (questionArrives k r now st)
    \<and> list_all2 evolves (messages st) (take (length (messages st)) (messages (questionArrives k r now st)))"
  proof (cases "enabled AwaitingQuestion k st")
    case False
    with t show ?thesis by (simp add: questionArrives_idle evolves_same)
  next
    case True
    note f = questionArrives_fields [OF True]
    have old: "own_index c < length (messages st)" if "c \<in> set (cycles st)" for c
      using orderly_cycle [OF o that] by (simp add: in_order_def)
    have "tidy (questionArrives k r now st)"
    proof (rule tidyI)
      show "orderly (questionArrives k r now st)" using o by (rule orderly_question)
      show "distinct (map msg_id (messages (questionArrives k r now st)))"
        using tidy_ids [OF t] fr by (cases r) (simp_all add: f ai_turn_def)
      show "distinct (map own_index (cycles (questionArrives k r now st)))"
        using tidy_indices [OF t] by (simp add: f distinct_drop_nth)
      show "unevaluated (messages (questionArrives k r now st)) c"
        if "c \<in> set (cycles (questionArrives k r now st))" for c
      proof -
        from that have c: "c \<in> set (cycles st)" by (simp add: f set_drop_nth)
        with old tidy_cycle [OF t] show ?thesis
          by (cases r) (simp_all add: f unevaluated_append)
      qed
    qed
    moreover have "list_all2 evolves (messages st)
        (take (length (messages st)) (messages (questionArrives k r now st)))"
      by (cases r) (simp_all add: f evolves_same)
    ultimately show ?thesis by simp
  qed
  then show "tidy (questionArrives k r now st)"
    "list_all2 evolves (messages st) (take (length (messages st)) (messages (questionArrives k r now st)))"
    by simp_all
qed




lemma msg_id_attach [simp]: "msg_id (attach u v m) = msg_id m"
  by (simp add: attach_def)

lemma attach_other: "msg_id m \<noteq> u \<Longrightarrow> attach u v m = m"
  by (simp add: attach_def)

lemma map_own_index_promote:
  "k < length cs \<Longrightarrow> map own_index (cs[k := (cs ! k)\<lparr>phase := ph\<rparr>]) = map own_index cs"
  by (simp add: map_update list_update_same_conv)

lemma tidy_validation:
  assumes t: "tidy st"
  shows "tidy (validationArrives k r st)"
    "list_all2 evolves (messages st) (take (length (messages st)) (messages (validationArrives k r st)))"
proof -
  from t have o: "orderly st" by (rule tidy_orderly)
  have o': "orderly (validationArrives k r st)" using o by (rule orderly_validation)
  have "tidy (validationArrives k r st)
    \<and> list_all2 evolves (messages st) (take (length (messages st)) (messages (validationArrives k r st)))"
  proof (cases "enabled AwaitingValidation k st")
    case False
    with t show ?thesis by (simp add: validationArrives_idle)
  next
    case True
    then have k: "k < length (cycles st)" and ph: "phase (cycles st ! k) = AwaitingValidation"
      by (simp_all add: enabled_def)
    note f = validationArrives_fields [OF True]
    show ?thesis
    proof (cases r)
      case (Inl e)
      have "tidy (validationArrives k (Inl e) st)"
      proof (rule tidyI)
        show "orderly (validationArrives k (Inl e) st)" using o' by (simp add: Inl)
        show "distinct (map msg_id (messages (validationArrives k (Inl e) st)))"
          using tidy_ids [OF t] by (simp add: f)
        show "distinct (map own_index (cycles (validationArrives k (Inl e) st)))"
          using tidy_indices [OF t] by (simp add: f distinct_drop_nth)
        show "unevaluated (messages (validationArrives k (Inl e) st)) c"
          if "c \<in> set (cycles (validationArrives k (Inl e) st))" for c
        proof -
          from that have "c \<in> set (cycles st)" by (simp add: f set_drop_nth)
          with t show ?thesis by (simp add: f tidy_cycle)
        qed
      qed
      then show ?thesis by (simp add: Inl f)
    next
      case (Inr v)
      let ?ck = "cycles st ! k"
      let ?u = "msg_id (userMsg ?ck)"
      let ?i = "own_index ?ck"
      let ?msgs = "messages st"
      from k have mem: "?ck \<in> set (cycles st)" by simp
      from orderly_cycle [OF o mem] have i: "?i < length ?msgs"
        and co: "core (?msgs ! ?i) = core (userMsg ?ck)" and ro: "role (userMsg ?ck) = USER"
        by (simp_all add: in_order_def)
      from co have idi: "msg_id (?msgs ! ?i) = ?u" and roi: "role (?msgs ! ?i) = role (userMsg ?ck)"
        by (simp_all add: core_def)
      from tidy_cycle [OF t mem] ph have un: "feedback (?msgs ! ?i) = None" "score (?msgs ! ?i) = None"
        by (simp_all add: unevaluated_def)
      have own: "role m = USER \<and> feedback m = None \<and> score m = None"
        if "m \<in> set ?msgs" "msg_id m = ?u" for m
      proof -
        from that idi have "m = ?msgs ! ?i"
          by (intro same_id_same_turn [OF tidy_ids [OF t] i]) simp_all
        with un roi ro show ?thesis by simp
      qed
      have ev: "list_all2 evolves ?msgs (take (length ?msgs) (map (attach ?u v) ?msgs))"
        using own by (rule evolves_map_attach)
      have "tidy (validationArrives k (Inr v) st)"
      proof (rule tidyI)
        show "orderly (validationArrives k (Inr v) st)" using o' by (simp add: Inr)
        show "distinct (map msg_id (messages (validationArrives k (Inr v) st)))"
          using tidy_ids [OF t] by (simp add: f comp_def)
        show "distinct (map own_index (cycles (validationArrives k (Inr v) st)))"
          using tidy_indices [OF t] k by (simp add: f map_own_index_promote)
        show "unevaluated (messages (validationArrives k (Inr v) st)) c"
          if "c \<in> set (cycles (validationArrives k (Inr v) st))" for c
        proof -
          from that obtain j where j: "j < length (cycles st)"
            and c: "c = (cycles st)[k := ?ck\<lparr>phase := AwaitingQuestion\<rparr>] ! j"
            by (auto simp: f in_set_conv_nth)
          show ?thesis
          proof (cases "j = k")
            case True
            with c k show ?thesis by (simp add: unevaluated_def)
          next
            case False
            with c have cj: "c = cycles st ! j" by simp
            with j have cm: "c \<in> set (cycles st)" by simp
            from orderly_cycle [OF o cm] have ic: "own_index c < length ?msgs"
              by (simp add: in_order_def)
            have "(map own_index (cycles st) ! j = map own_index (cycles st) ! k) = (j = k)"
              using tidy_indices [OF t] j k by (intro nth_eq_iff_index_eq) simp_all
            then have ne: "own_index c \<noteq> ?i" using j k cj False by simp
            have "(map msg_id ?msgs ! own_index c = map msg_id ?msgs ! ?i) = (own_index c = ?i)"
              using tidy_ids [OF t] ic i by (intro nth_eq_iff_index_eq) simp_all
            then have "msg_id (?msgs ! own_index c) \<noteq> ?u" using ic i idi ne by simp
            then have "attach ?u v (?msgs ! own_index c) = ?msgs ! own_index c"
              by (rule attach_other)
            with tidy_cycle [OF t cm] ic show ?thesis
              by (simp add: f unevaluated_def)
          qed
        qed
      qed
      with ev show ?thesis by (simp add: Inr f)
    qed
  qed
  then show "tidy (validationArrives k r st)"
    "list_all2 evolves (messages st) (take (length (messages st)) (messages (validationArrives k r st)))"
    by simp_all
qed

lemma tidy_react:
  assumes t: "tidy st" and fr: "fresh st e"
  shows "tidy (react st e)
       \<and> list_all2 evolves (messages st) (take (length (messages st)) (messages (react st e)))"
proof (cases e)
  case (InitialQuestionArrives r)
  with t show ?thesis by (simp add: tidy_initial)
next
  case (ChangeInput v)
  with t show ?thesis by (auto intro: tidy_frame)
next
  case (ClickSend now)
  with tidy_submit [OF t, of "clickSend now st" now] fr show ?thesis by simp
next
  case (PressEnter now)
  with tidy_submit [OF t, of "pressEnter now st" now] fr show ?thesis by simp
next
  case (ValidationArrives k r)
  with t show ?thesis by (simp add: tidy_validation)
next
  case (QuestionArrives k r now)
  with tidy_question [OF t, of now k r] fr show ?thesis by simp
next
  case (ClickReadAloud k)
  with t show ?thesis by (auto intro: tidy_frame)
next
  case (SpeechArrives d p)
  with t show ?thesis by (auto intro: tidy_frame)
next
  case (AudioEnded i)
  with t show ?thesis by (auto intro: tidy_frame)
qed

lemma tidy_interview:
  "tidy st \<Longrightarrow> fresh_ids st tr \<Longrightarrow>
   tidy (interview st tr)
   \<and> list_all2 evolves (messages st) (take (length (messages st)) (messages (interview st tr)))"
proof (induction tr arbitrary: st)
  case Nil
  then show ?case by simp
next
  case (Cons e tr)
  from Cons.prems have fr: "fresh st e" and rest: "fresh_ids (react st e) tr" by simp_all
  from tidy_react [OF Cons.prems(1) fr] have t1: "tidy (react st e)"
    and e1: "list_all2 evolves (messages st) (take (length (messages st)) (messages (react st e)))"
    by simp_all
  from Cons.IH [OF t1 rest] have t2: "tidy (interview (react st e) tr)"
    and e2: "list_all2 evolves (messages (react st e))
        (take (length (messages (react st e))) (messages (interview (react st e) tr)))"
    by simp_all
  from t2 evolves_take_trans [OF e1 e2] show ?case by simp
qed

lemma fresh_ids_append:
  "fresh_ids st (xs @ ys) = (fresh_ids st xs \<and> fresh_ids (interview st xs) ys)"
  by (induction xs arbitrary: st) simp_all

lemma core_prefix_react:
  assumes o: "orderly st"
  shows "prefix (map core (messages st)) (map core (messages (react st e)))"
proof (cases e)
  case (InitialQuestionArrives r)
  show ?thesis
  proof (cases "startInterview_pending st")
    case True
    with o have "messages st = []" by (rule orderly_pending)
    then show ?thesis by simp
  next
    case False
    then show ?thesis by (simp add: InitialQuestionArrives initialQuestionArrives_idle)
  qed
next
  case (ClickSend now)
  have "clickSend now st = clickSend now st \<or> clickSend now st = pressEnter now st" by simp
  then show ?thesis unfolding ClickSend
    by (cases rule: submit_cases) (simp, simp (no_asm_simp))
next
  case (PressEnter now)
  have "pressEnter now st = clickSend now st \<or> pressEnter now st = pressEnter now st" by simp
  then show ?thesis unfolding PressEnter
    by (cases rule: submit_cases) (simp, simp (no_asm_simp))
next
  case (ValidationArrives k r)
  show ?thesis
  proof (cases "enabled AwaitingValidation k st")
    case True
    then show ?thesis unfolding ValidationArrives
      by (cases r) (simp_all add: validationArrives_fields comp_def)
  next
    case False
    then show ?thesis by (simp add: ValidationArrives validationArrives_idle)
  qed
next
  case (QuestionArrives k r now)
  show ?thesis
  proof (cases "enabled AwaitingQuestion k st")
    case True
    then show ?thesis unfolding QuestionArrives
      by (cases r) (simp_all add: questionArrives_fields)
  next
    case False
    then show ?thesis by (simp add: QuestionArrives questionArrives_idle)
  qed
qed simp_all

lemma core_prefix_interview:
  "orderly st \<Longrightarrow> prefix (map core (messages st)) (map core (messages (interview st tr)))"
proof (induction tr arbitrary: st)
  case Nil
  then show ?case by simp
next
  case (Cons e tr)
  from Cons.prems have "orderly (react st e)" by (rule orderly_react)
  from Cons.IH [OF this] core_prefix_react [OF Cons.prems, of e] show ?case
    by (auto intro: prefix_order.trans)
qed

text \<open>
  Between any two instants of a session, the identifiers, speakers and texts of the
  turns present at the earlier instant are an initial segment of those at the later one:
  no turn is removed, reordered or rewritten.  When moreover every identifier taken from
  the clock is new to the transcript, each turn present at the earlier instant is, at the
  later one, either unchanged or a user's turn that had neither feedback nor score and has
  received both.
\<close>

lemma transcript_grows:
  "prefix (map core (messages (interview (mounted skills) (take k tr))))
          (map core (messages (interview (mounted skills) tr)))
   \<and> (fresh_ids (mounted skills) tr \<longrightarrow>
        list_all2 evolves
          (messages (interview (mounted skills) (take k tr)))
          (take (length (messages (interview (mounted skills) (take k tr))))
             (messages (interview (mounted skills) tr))))"
proof -
  let ?mid = "interview (mounted skills) (take k tr)"
  have split: "interview (mounted skills) tr = interview ?mid (drop k tr)"
    using interview_append [of "mounted skills" "take k tr" "drop k tr"] by simp
  have o: "orderly ?mid" using orderly_mounted by (rule orderly_interview)
  have p: "prefix (map core (messages ?mid)) (map core (messages (interview ?mid (drop k tr))))"
    using o by (rule core_prefix_interview)
  have e: "list_all2 evolves (messages ?mid)
      (take (length (messages ?mid)) (messages (interview ?mid (drop k tr))))"
    if fr: "fresh_ids (mounted skills) tr"
  proof -
    from fr fresh_ids_append [of "mounted skills" "take k tr" "drop k tr"]
    have f1: "fresh_ids (mounted skills) (take k tr)" and f2: "fresh_ids ?mid (drop k tr)"
      by simp_all
    from tidy_interview [OF tidy_mounted f1] have "tidy ?mid" by simp
    from tidy_interview [OF this f2] show ?thesis by simp
  qed
  from p e show ?thesis unfolding split by blast
qed




section \<open>Evaluation comes before the next question\<close>

lemma one_in_flight_mounted: "one_in_flight (mounted skills)"
  by (simp add: one_in_flight_def mounted_def startInterview_def initial_session_def)

lemma one_in_flight_react: "one_in_flight st \<Longrightarrow> one_in_flight (react st e)"
proof (cases e)
  case (InitialQuestionArrives r)
  assume "one_in_flight st"
  then show ?thesis unfolding InitialQuestionArrives
    by (auto simp: one_in_flight_def initialQuestionArrives_def handlePlayAudio_def Let_def
        split: sum.splits)
next
  case (ChangeInput v)
  assume "one_in_flight st"
  then show ?thesis unfolding ChangeInput
    by (auto simp: one_in_flight_def changeInput_def)
next
  case (ClickSend now)
  assume "one_in_flight st"
  then show ?thesis unfolding ClickSend
    by (auto simp: one_in_flight_def clickSend_def sendButton_disabled_def unhandled_def
        handleSendMessage_def Let_def)
next
  case (PressEnter now)
  assume "one_in_flight st"
  then show ?thesis unfolding PressEnter
    by (auto simp: one_in_flight_def pressEnter_def textarea_disabled_def unhandled_def
        handleSendMessage_def Let_def)
next
  case (ValidationArrives k r)
  assume "one_in_flight st"
  then show ?thesis unfolding ValidationArrives
    by (auto simp: one_in_flight_def validationArrives_def drop_nth_def Let_def split: sum.splits)
next
  case (QuestionArrives k r now)
  assume "one_in_flight st"
  then show ?thesis unfolding QuestionArrives
    by (auto simp: one_in_flight_def questionArrives_def handlePlayAudio_def drop_nth_def Let_def
        split: sum.splits)
next
  case (ClickReadAloud k)
  assume "one_in_flight st"
  then show ?thesis unfolding ClickReadAloud
    by (auto simp: one_in_flight_def clickReadAloud_def handlePlayAudio_def)
next
  case (SpeechArrives d p)
  assume "one_in_flight st"
  then show ?thesis unfolding SpeechArrives
    by (auto simp: one_in_flight_def speechArrives_def after_audio_def Let_def split: option.splits)
next
  case (AudioEnded i)
  assume "one_in_flight st"
  then show ?thesis unfolding AudioEnded
    by (auto simp: one_in_flight_def audioEnded_def after_audio_def)
qed

lemma one_in_flight_interview: "one_in_flight st \<Longrightarrow> one_in_flight (interview st tr)"
  by (induction tr arbitrary: st) (simp_all add: one_in_flight_react)

lemma validationArrives_calls:
  assumes "enabled AwaitingValidation k st"
  shows "calls (validationArrives k (Inl e) st) = calls st"
    "calls (validationArrives k (Inr v) st) =
       calls st @ [GenerateQuestion (selectedSkills st)
         (map msg_text (filter (\<lambda>m. role m = AI) (closure_messages (cycles st ! k))))]"
  using assms by (simp_all add: validationArrives_def enabled_def Let_def)

lemma questionArrives_calls:
  assumes "enabled AwaitingQuestion k st"
  shows "calls (questionArrives k (Inl e) now st) = calls st"
  using assms by (simp add: questionArrives_def enabled_def Let_def)

text \<open>
  C10.  Take any state of any session.  At most one submission is in flight, and the
  session is busy while it is.  A submission accepted there (a non-empty answer on
  a non-empty transcript) appends the user's turn and sends the evaluation request and
  nothing else; the invocation is then suspended awaiting the evaluation.  For any
  submission \<open>k\<close> in flight, its own turn is in the transcript and is the user's.  While the
  submission awaits its evaluation, a question cannot arrive for it.  The arrival of the
  evaluation writes the evaluation's feedback and score on that turn, changes no
  identifier, speaker or text and appends no turn, and in the same step, after that, sends
  the next-question request; the submission then awaits its question.  A rejected
  evaluation sends no request at all.  While the submission awaits its question, its turn
  already carries feedback and score, no second evaluation can arrive for it, and the
  arrival of the question appends the new AI turn.
\<close>

theorem evaluation_precedes_next_question:
  assumes st: "st = interview (mounted skills) tr"
  shows "length (cycles st) \<le> 1 \<and> (cycles st \<noteq> [] \<longrightarrow> isLoading st)
       \<and> (trim (inputText st) \<noteq> [] \<and> messages st \<noteq> [] \<longrightarrow>
            (\<exists>st1. handleSendMessage now' st = Inr st1
               \<and> (\<not> isLoading st \<longrightarrow> clickSend now' st = st1 \<and> pressEnter now' st = st1)
               \<and> messages st1 = messages st @ [user_turn now' st]
               \<and> calls st1 = calls st @
                     [ValidateAnswer (msg_text (last (messages st))) (inputText st)]
               \<and> cycles st1 = cycles st @
                     [\<lparr>userMsg = user_turn now' st, closure_messages = messages st,
                       closure_isPlaying = isPlaying st, phase = AwaitingValidation\<rparr>]))
       \<and> (k < length (cycles st) \<and> c = cycles st ! k \<and> i = own_index c \<longrightarrow>
            i < length (messages st) \<and> core (messages st ! i) = core (userMsg c)
          \<and> role (messages st ! i) = USER
          \<and> (phase c = AwaitingValidation \<longrightarrow>
               questionArrives k rq now st = st
             \<and> calls (validationArrives k (Inl e) st) = calls st
             \<and> messages (validationArrives k (Inl e) st) = messages st
             \<and> map core (messages (validationArrives k (Inr v) st)) = map core (messages st)
             \<and> feedback (messages (validationArrives k (Inr v) st) ! i) = Some (verdict_feedback v)
             \<and> score (messages (validationArrives k (Inr v) st) ! i) = Some (verdict_score v)
             \<and> calls (validationArrives k (Inr v) st) =
                 calls st @ [GenerateQuestion (selectedSkills st)
                   (map msg_text (filter (\<lambda>m. role m = AI) (closure_messages c)))]
             \<and> phase (cycles (validationArrives k (Inr v) st) ! k) = AwaitingQuestion)
          \<and> (phase c = AwaitingQuestion \<longrightarrow>
               evaluated (messages st ! i)
             \<and> validationArrives k rv st = st
             \<and> calls (questionArrives k (Inl e) now st) = calls st
             \<and> messages (questionArrives k (Inl e) now st) = messages st
             \<and> messages (questionArrives k (Inr q) now st) = messages st @ [ai_turn now q]))"
proof -
  have submit: "\<exists>st1. handleSendMessage now' st = Inr st1
               \<and> (\<not> isLoading st \<longrightarrow> clickSend now' st = st1 \<and> pressEnter now' st = st1)
               \<and> messages st1 = messages st @ [user_turn now' st]
               \<and> calls st1 = calls st @
                     [ValidateAnswer (msg_text (last (messages st))) (inputText st)]
               \<and> cycles st1 = cycles st @
                     [\<lparr>userMsg = user_turn now' st, closure_messages = messages st,
                       closure_isPlaying = isPlaying st, phase = AwaitingValidation\<rparr>]"
    if "trim (inputText st) \<noteq> []" "messages st \<noteq> []"
    using that
    by (simp add: handleSendMessage_def clickSend_def pressEnter_def sendButton_disabled_def
        textarea_disabled_def unhandled_def user_turn_def Let_def)
  have flight: "i < length (messages st) \<and> core (messages st ! i) = core (userMsg c)
          \<and> role (messages st ! i) = USER
          \<and> (phase c = AwaitingValidation \<longrightarrow>
               questionArrives k rq now st = st
             \<and> calls (validationArrives k (Inl e) st) = calls st
             \<and> messages (validationArrives k (Inl e) st) = messages st
             \<and> map core (messages (validationArrives k (Inr v) st)) = map core (messages st)
             \<and> feedback (messages (validationArrives k (Inr v) st) ! i) = Some (verdict_feedback v)
             \<and> score (messages (validationArrives k (Inr v) st) ! i) = Some (verdict_score v)
             \<and> calls (validationArrives k (Inr v) st) =
                 calls st @ [GenerateQuestion (selectedSkills st)
                   (map msg_text (filter (\<lambda>m. role m = AI) (closure_messages c)))]
             \<and> phase (cycles (validationArrives k (Inr v) st) ! k) = AwaitingQuestion)
          \<and> (phase c = AwaitingQuestion \<longrightarrow>
               evaluated (messages st ! i)
             \<and> validationArrives k rv st = st
             \<and> calls (questionArrives k (Inl e) now st) = calls st
             \<and> messages (questionArrives k (Inl e) now st) = messages st
             \<and> messages (questionArrives k (Inr q) now st) = messages st @ [ai_turn now q])"
    if k: "k < length (cycles st)" and c: "c = cycles st ! k" and i: "i = own_index c"
  proof -
    have o: "orderly st" unfolding st using orderly_mounted by (rule orderly_interview)
    from k c have "c \<in> set (cycles st)" by simp
    with o have io: "in_order (messages st) c" by (rule orderly_cycle)
    then have b: "i < length (messages st)" and co: "core (messages st ! i) = core (userMsg c)"
      and ru: "role (userMsg c) = USER"
      and ev: "phase c = AwaitingQuestion \<Longrightarrow> evaluated (messages st ! i)"
      by (simp_all add: in_order_def i)
    from co ru have r: "role (messages st ! i) = USER" by (simp add: core_def)
    from co have id: "msg_id (messages st ! i) = msg_id (userMsg c)" by (simp add: core_def)
    have av: "questionArrives k rq now st = st
          \<and> calls (validationArrives k (Inl e) st) = calls st
          \<and> messages (validationArrives k (Inl e) st) = messages st
          \<and> map core (messages (validationArrives k (Inr v) st)) = map core (messages st)
          \<and> feedback (messages (validationArrives k (Inr v) st) ! i) = Some (verdict_feedback v)
          \<and> score (messages (validationArrives k (Inr v) st) ! i) = Some (verdict_score v)
          \<and> calls (validationArrives k (Inr v) st) =
              calls st @ [GenerateQuestion (selectedSkills st)
                (map msg_text (filter (\<lambda>m. role m = AI) (closure_messages c)))]
          \<and> phase (cycles (validationArrives k (Inr v) st) ! k) = AwaitingQuestion"
      if ph: "phase c = AwaitingValidation"
    proof -
      from k c ph have en: "enabled AwaitingValidation k st" by (simp add: enabled_def)
      from c ph have "\<not> enabled AwaitingQuestion k st" by (simp add: enabled_def)
      then have 1: "questionArrives k rq now st = st" by (rule questionArrives_idle)
      have m: "messages (validationArrives k (Inr v) st) = map (attach (msg_id (userMsg c)) v) (messages st)"
        by (simp add: validationArrives_fields [OF en] c)
      have 2: "map core (messages (validationArrives k (Inr v) st)) = map core (messages st)"
        by (simp add: m comp_def)
      have "messages (validationArrives k (Inr v) st) ! i = attach (msg_id (userMsg c)) v (messages st ! i)"
        using b by (simp add: m)
      then have 3: "feedback (messages (validationArrives k (Inr v) st) ! i) = Some (verdict_feedback v)"
        "score (messages (validationArrives k (Inr v) st) ! i) = Some (verdict_score v)"
        using id by (simp_all add: attach_def)
      have 4: "phase (cycles (validationArrives k (Inr v) st) ! k) = AwaitingQuestion"
        using k by (simp add: validationArrives_fields [OF en])
      from 1 2 3 4 show ?thesis
        by (simp add: validationArrives_fields [OF en] validationArrives_calls [OF en] c)
    qed
    have aq: "validationArrives k rv st = st
          \<and> calls (questionArrives k (Inl e) now st) = calls st
          \<and> messages (questionArrives k (Inl e) now st) = messages st
          \<and> messages (questionArrives k (Inr q) now st) = messages st @ [ai_turn now q]"
      if ph: "phase c = AwaitingQuestion"
    proof -
      from k c ph have en: "enabled AwaitingQuestion k st" by (simp add: enabled_def)
      from c ph have "\<not> enabled AwaitingValidation k st" by (simp add: enabled_def)
      then have "validationArrives k rv st = st" by (rule validationArrives_idle)
      then show ?thesis
        by (simp add: questionArrives_fields [OF en] questionArrives_calls [OF en])
    qed
    from b co r av aq ev show ?thesis by blast
  qed
  have "one_in_flight st" unfolding st using one_in_flight_mounted by (rule one_in_flight_interview)
  then have one: "length (cycles st) \<le> 1" "cycles st \<noteq> [] \<longrightarrow> isLoading st"
    by (simp_all add: one_in_flight_def)
  from one submit flight show ?thesis by blast
qed

text \<open>The state after the first answer was submitted, spelled out.\<close>

lemma answer_submitted_value:
  "answer_submitted =
    \<lparr>selectedSkills = [],
      messages = [\<lparr>msg_id = ''init'', role = AI, msg_text = ''Q1'', feedback = None, score = None\<rparr>,
                  \<lparr>msg_id = ''100'', role = USER, msg_text = ''a1'', feedback = None, score = None\<rparr>],
      inputText = [], isLoading = True, isPlaying = True, audioService = initial,
      startInterview_pending = False,
      cycles = [\<lparr>userMsg = \<lparr>msg_id = ''100'', role = USER, msg_text = ''a1'', feedback = None, score = None\<rparr>,
                 closure_messages = [\<lparr>msg_id = ''init'', role = AI, msg_text = ''Q1'', feedback = None, score = None\<rparr>],
                 closure_isPlaying = True, phase = AwaitingValidation\<rparr>],
      speech_pending = 1,
      calls = [GenerateQuestion [] [], GenerateSpeech ''Q1'', ValidateAnswer ''Q1'' ''a1'']\<rparr>"
  by (simp add: answer_submitted_def session_defs Let_def)

lemma evaluation_arrived_value:
  "interview (mounted []) (take 4 one_cycle) =
    \<lparr>selectedSkills = [],
      messages = [\<lparr>msg_id = ''init'', role = AI, msg_text = ''Q1'', feedback = None, score = None\<rparr>,
                  \<lparr>msg_id = ''100'', role = USER, msg_text = ''a1'', feedback = Some ''Good'',
                    score = Some 8\<rparr>],
      inputText = [], isLoading = True, isPlaying = True, audioService = initial,
      startInterview_pending = False,
      cycles = [\<lparr>userMsg = \<lparr>msg_id = ''100'', role = USER, msg_text = ''a1'', feedback = None, score = None\<rparr>,
                 closure_messages = [\<lparr>msg_id = ''init'', role = AI, msg_text = ''Q1'', feedback = None, score = None\<rparr>],
                 closure_isPlaying = True, phase = AwaitingQuestion\<rparr>],
      speech_pending = 1,
      calls = [GenerateQuestion [] [], GenerateSpeech ''Q1'', ValidateAnswer ''Q1'' ''a1'',
               GenerateQuestion [] [''Q1'']]\<rparr>"
  by (simp add: one_cycle_def session_defs Let_def)

theorem evaluation_precedes_next_question_witness:
  "calls answer_typed = [GenerateQuestion [] [], GenerateSpeech ''Q1'']
   \<and> length (cycles answer_submitted) = 1
   \<and> isLoading answer_submitted
   \<and> calls (clickSend 100 answer_typed) =
        [GenerateQuestion [] [], GenerateSpeech ''Q1'', ValidateAnswer ''Q1'' ''a1'']
   \<and> map msg_text (messages (clickSend 100 answer_typed)) = [''Q1'', ''a1'']
   \<and> map phase (cycles (clickSend 100 answer_typed)) = [AwaitingValidation]
   \<and> questionArrives 0 (Inr ''Q2'') 200 answer_submitted = answer_submitted
   \<and> feedback (messages (validationArrives 0 (Inr good) answer_submitted) ! 1) = Some ''Good''
   \<and> score (messages (validationArrives 0 (Inr good) answer_submitted) ! 1) = Some 8
   \<and> calls (validationArrives 0 (Inr good) answer_submitted) =
        calls answer_submitted @ [GenerateQuestion [] [''Q1'']]
   \<and> calls (validationArrives 0 (Inl Rejected) answer_submitted) = calls answer_submitted
   \<and> role (messages answer_submitted ! 1) = USER
   \<and> evaluated (messages (interview (mounted []) (take 4 one_cycle)) ! 1)
   \<and> map msg_text (messages (questionArrives 0 (Inr ''Q2'') 200
         (interview (mounted []) (take 4 one_cycle)))) = [''Q1'', ''a1'', ''Q2'']"
proof -
  have ty: "trim (inputText answer_typed) \<noteq> [] \<and> messages answer_typed \<noteq> []"
    by (simp add: answer_typed_value trim_def is_space_def)
  have idle: "\<not> isLoading answer_typed" by (simp add: answer_typed_value)
  from evaluation_precedes_next_question [OF answer_typed_def, of 100] ty idle
  obtain st1 where s1: "clickSend 100 answer_typed = st1"
    and m1: "messages st1 = messages answer_typed @ [user_turn 100 answer_typed]"
    and c1: "calls st1 = calls answer_typed @
        [ValidateAnswer (msg_text (last (messages answer_typed))) (inputText answer_typed)]"
    and y1: "cycles st1 = cycles answer_typed @
        [\<lparr>userMsg = user_turn 100 answer_typed, closure_messages = messages answer_typed,
          closure_isPlaying = isPlaying answer_typed, phase = AwaitingValidation\<rparr>]"
    by blast
  have 0: "calls answer_typed = [GenerateQuestion [] [], GenerateSpeech ''Q1'']"
    by (simp add: answer_typed_value)
  from c1 have "calls st1 =
        [GenerateQuestion [] [], GenerateSpeech ''Q1'', ValidateAnswer ''Q1'' ''a1'']"
    by (simp add: answer_typed_value)
  then have a1: "calls (clickSend 100 answer_typed) =
        [GenerateQuestion [] [], GenerateSpeech ''Q1'', ValidateAnswer ''Q1'' ''a1'']"
    by (simp only: s1)
  from m1 have "map msg_text (messages st1) = [''Q1'', ''a1'']"
    by (simp add: answer_typed_value user_turn_def)
  then have a2: "map msg_text (messages (clickSend 100 answer_typed)) = [''Q1'', ''a1'']"
    by (simp only: s1)
  from y1 have "map phase (cycles st1) = [AwaitingValidation]"
    by (simp add: answer_typed_value)
  then have a3: "map phase (cycles (clickSend 100 answer_typed)) = [AwaitingValidation]"
    by (simp only: s1)
  have k: "0 < length (cycles answer_submitted) \<and> cycles answer_submitted ! 0 = cycles answer_submitted ! 0
      \<and> 1 = own_index (cycles answer_submitted ! 0)"
    by (simp add: answer_submitted_value own_index_def)
  have ph: "phase (cycles answer_submitted ! 0) = AwaitingValidation"
    by (simp add: answer_submitted_value)
  have sk: "selectedSkills answer_submitted = []"
    and cl: "map msg_text (filter (\<lambda>m. role m = AI) (closure_messages (cycles answer_submitted ! 0))) = [''Q1'']"
    by (simp_all add: answer_submitted_value)
  have g: "verdict_feedback good = ''Good''" "verdict_score good = 8" by (simp_all add: good_def)
  note T = evaluation_precedes_next_question [OF answer_submitted_def,
      where k = 0 and c = "cycles answer_submitted ! 0" and i = 1 and rq = "Inr ''Q2''"
        and now = 200 and e = Rejected and v = good]
  have ne: "cycles answer_submitted \<noteq> []" "length (cycles answer_submitted) = 1"
    by (simp_all add: answer_submitted_value)
  from T ne have busy: "isLoading answer_submitted" by blast
  from T k ph have 1: "questionArrives 0 (Inr ''Q2'') 200 answer_submitted = answer_submitted" by blast
  from T k ph have "feedback (messages (validationArrives 0 (Inr good) answer_submitted) ! 1)
      = Some (verdict_feedback good)" by blast
  then have 2: "feedback (messages (validationArrives 0 (Inr good) answer_submitted) ! 1) = Some ''Good''"
    by (simp only: g)
  from T k ph have "score (messages (validationArrives 0 (Inr good) answer_submitted) ! 1)
      = Some (verdict_score good)" by blast
  then have 3: "score (messages (validationArrives 0 (Inr good) answer_submitted) ! 1) = Some 8"
    by (simp only: g)
  from T k ph have "calls (validationArrives 0 (Inr good) answer_submitted) =
      calls answer_submitted @ [GenerateQuestion (selectedSkills answer_submitted)
        (map msg_text (filter (\<lambda>m. role m = AI) (closure_messages (cycles answer_submitted ! 0))))]"
    by blast
  then have 4: "calls (validationArrives 0 (Inr good) answer_submitted) =
        calls answer_submitted @ [GenerateQuestion [] [''Q1'']]"
    by (simp only: sk cl)
  from T k ph have 5: "calls (validationArrives 0 (Inl Rejected) answer_submitted) = calls answer_submitted"
    by blast
  from T k have 6: "role (messages answer_submitted ! 1) = USER" by blast
  let ?s = "interview (mounted []) (take 4 one_cycle)"
  have k': "0 < length (cycles ?s) \<and> cycles ?s ! 0 = cycles ?s ! 0 \<and> 1 = own_index (cycles ?s ! 0)"
    by (simp add: evaluation_arrived_value own_index_def)
  have ph': "phase (cycles ?s ! 0) = AwaitingQuestion"
    by (simp add: evaluation_arrived_value)
  have r: "?s = interview (mounted []) (take 4 one_cycle)" by (rule refl)
  note U = evaluation_precedes_next_question [OF r,
      where k = 0 and c = "cycles ?s ! 0" and i = 1 and now = 200 and q = "''Q2''"]
  from U k' ph' have 7: "evaluated (messages ?s ! 1)" by blast
  from U k' ph' have "messages (questionArrives 0 (Inr ''Q2'') 200 ?s) = messages ?s @ [ai_turn 200 ''Q2'']"
    by blast
  then have 8: "map msg_text (messages (questionArrives 0 (Inr ''Q2'') 200 ?s)) = [''Q1'', ''a1'', ''Q2'']"
    by (simp add: evaluation_arrived_value ai_turn_def)
  from 0 ne(2) busy a1 a2 a3 1 2 3 4 5 6 7 8 show ?thesis by blast
qed

section \<open>The busy flag is released\<close>

text \<open>
  C7.  \<^verbatim>\<open>handleSendMessage\<close> either leaves before it sets anything (the empty-answer
  return and the fault on an empty transcript), or sets \<^verbatim>\<open>isLoading\<close> and is suspended
  awaiting the evaluation.  From there, whatever the state has become meanwhile: a
  rejected evaluation ends the invocation with \<^verbatim>\<open>isLoading\<close> cleared; an evaluation moves
  it on to await the question; and the question, delivered or rejected, ends it with
  \<^verbatim>\<open>isLoading\<close> cleared.
\<close>

theorem isLoading_cleared_on_every_exit:
  "(handleSendMessage now st = Inl TypeError
    \<or> handleSendMessage now st = Inr st
    \<or> (\<exists>st1 c. handleSendMessage now st = Inr st1 \<and> isLoading st1
          \<and> cycles st1 = cycles st @ [c] \<and> phase c = AwaitingValidation))
   \<and> (k < length (cycles st) \<and> phase (cycles st ! k) = AwaitingValidation \<longrightarrow>
          \<not> isLoading (validationArrives k (Inl e) st)
        \<and> cycles (validationArrives k (Inl e) st) = drop_nth k (cycles st)
        \<and> cycles (validationArrives k (Inr v) st) =
            (cycles st)[k := (cycles st ! k)\<lparr>phase := AwaitingQuestion\<rparr>])
   \<and> (k < length (cycles st) \<and> phase (cycles st ! k) = AwaitingQuestion \<longrightarrow>
          \<not> isLoading (questionArrives k r now' st)
        \<and> cycles (questionArrives k r now' st) = drop_nth k (cycles st))"
proof -
  have 1: "handleSendMessage now st = Inl TypeError
    \<or> handleSendMessage now st = Inr st
    \<or> (\<exists>st1 c. handleSendMessage now st = Inr st1 \<and> isLoading st1
          \<and> cycles st1 = cycles st @ [c] \<and> phase c = AwaitingValidation)"
  proof (cases rule: handleSendMessage_cases [of st now])
    case (accept P)
    let ?c = "\<lparr>userMsg = user_turn now st, closure_messages = messages st,
               closure_isPlaying = P, phase = AwaitingValidation\<rparr>"
    from accept(3) have "\<exists>st1. handleSendMessage now st = Inr st1 \<and> isLoading st1
          \<and> cycles st1 = cycles st @ [?c] \<and> phase ?c = AwaitingValidation"
      by simp
    then show ?thesis by blast
  qed simp_all
  have 2: "\<not> isLoading (validationArrives k (Inl e) st)
        \<and> cycles (validationArrives k (Inl e) st) = drop_nth k (cycles st)
        \<and> cycles (validationArrives k (Inr v) st) =
            (cycles st)[k := (cycles st ! k)\<lparr>phase := AwaitingQuestion\<rparr>]"
    if "k < length (cycles st)" "phase (cycles st ! k) = AwaitingValidation"
    using that by (simp add: validationArrives_def Let_def)
  have 3: "\<not> isLoading (questionArrives k r now' st)
        \<and> cycles (questionArrives k r now' st) = drop_nth k (cycles st)"
    if "k < length (cycles st)" "phase (cycles st ! k) = AwaitingQuestion"
    using that by (simp add: questionArrives_def handlePlayAudio_def Let_def split: sum.splits)
  from 1 2 3 show ?thesis by blast
qed

theorem isLoading_cleared_on_every_exit_witness:
  "isLoading answer_submitted
   \<and> \<not> isLoading (validationArrives 0 (Inl Rejected) answer_submitted)
   \<and> cycles (validationArrives 0 (Inl Rejected) answer_submitted) = []
   \<and> \<not> isLoading (questionArrives 0 (Inl Rejected) 200 (validationArrives 0 (Inr good) answer_submitted))
   \<and> \<not> isLoading (questionArrives 0 (Inr ''Q2'') 200 (validationArrives 0 (Inr good) answer_submitted))"
proof -
  let ?s2 = "validationArrives 0 (Inr good) answer_submitted"
  have b: "isLoading answer_submitted" by (simp add: answer_submitted_value)
  have k: "0 < length (cycles answer_submitted) \<and> phase (cycles answer_submitted ! 0) = AwaitingValidation"
    by (simp add: answer_submitted_value)
  have d: "drop_nth 0 (cycles answer_submitted) = []"
    by (simp add: answer_submitted_value drop_nth_def)
  note A = isLoading_cleared_on_every_exit [of 0 answer_submitted 0 Rejected good undefined 0]
  from A k have a1: "\<not> isLoading (validationArrives 0 (Inl Rejected) answer_submitted)" by blast
  from A k have "cycles (validationArrives 0 (Inl Rejected) answer_submitted)
      = drop_nth 0 (cycles answer_submitted)" by blast
  with d have a2: "cycles (validationArrives 0 (Inl Rejected) answer_submitted) = []" by simp
  from A k have "cycles ?s2 =
      (cycles answer_submitted)[0 := (cycles answer_submitted ! 0)\<lparr>phase := AwaitingQuestion\<rparr>]"
    by blast
  then have k2: "0 < length (cycles ?s2) \<and> phase (cycles ?s2 ! 0) = AwaitingQuestion"
    by (simp add: answer_submitted_value)
  from isLoading_cleared_on_every_exit [of 0 ?s2 0 Rejected good "Inl Rejected" 200] k2
  have a3: "\<not> isLoading (questionArrives 0 (Inl Rejected) 200 ?s2)" by blast
  from isLoading_cleared_on_every_exit [of 0 ?s2 0 Rejected good "Inr ''Q2''" 200] k2
  have a4: "\<not> isLoading (questionArrives 0 (Inr ''Q2'') 200 ?s2)" by blast
  from b a1 a2 a3 a4 show ?thesis by blast
qed

lemma transcript_grows_one_cycle:
  "fresh_ids (mounted []) one_cycle
   \<and> map core (messages (interview (mounted []) (take 3 one_cycle))) =
       [(''init'', AI, ''Q1''), (''100'', USER, ''a1'')]
   \<and> map feedback (messages (interview (mounted []) (take 3 one_cycle))) = [None, None]
   \<and> map core (messages (interview (mounted []) one_cycle)) =
       [(''init'', AI, ''Q1''), (''100'', USER, ''a1''), (''201'', AI, ''Q2'')]
   \<and> map feedback (messages (interview (mounted []) one_cycle)) = [None, Some ''Good'', None]
   \<and> prefix (map core (messages (interview (mounted []) (take 3 one_cycle))))
             (map core (messages (interview (mounted []) one_cycle)))
   \<and> list_all2 evolves
        (messages (interview (mounted []) (take 3 one_cycle)))
        (take (length (messages (interview (mounted []) (take 3 one_cycle))))
           (messages (interview (mounted []) one_cycle)))"
proof -
  have f: "fresh_ids (mounted []) one_cycle"
    by (simp add: one_cycle_def session_defs Let_def)
  have a: "map core (messages (interview (mounted []) (take 3 one_cycle))) =
       [(''init'', AI, ''Q1''), (''100'', USER, ''a1'')]"
    "map feedback (messages (interview (mounted []) (take 3 one_cycle))) = [None, None]"
    by (simp_all add: one_cycle_def core_def session_defs Let_def)
  have b: "map core (messages (interview (mounted []) one_cycle)) =
       [(''init'', AI, ''Q1''), (''100'', USER, ''a1''), (''201'', AI, ''Q2'')]"
    "map feedback (messages (interview (mounted []) one_cycle)) = [None, Some ''Good'', None]"
    by (simp_all add: one_cycle_def core_def session_defs Let_def)
  from transcript_grows [of "[]" 3 one_cycle] f a b show ?thesis by blast
qed





section \<open>Two playbacks at once\<close>

text \<open>
  C1, violated by the code, in two ways.  First, \<^verbatim>\<open>playAudio\<close> stops the current
  playback before its await and installs the new node after it.  Of two calls in
  succession, the first not awaited, the second finds nothing to stop, and both nodes are
  started.  Second, the handler installed on a node clears \<^verbatim>\<open>currentSource\<close> without
  looking whether the field still holds that node.  When an awaited play supersedes a
  sounding playback, the \<^verbatim>\<open>ended\<close> event of the halted node arrives once the new node is
  installed and erases the new node's handle; the new node goes on sounding, the next
  play finds nothing to stop, and two nodes sound at once: on the service alone after
  three plays, and in a session driven by its buttons, where after the late event
  \<^verbatim>\<open>isPlaying\<close> is false while a node sounds.  (The session keeps this single boolean and
  no turn identifier.)
\<close>

theorem two_playbacks_at_once:
  "sounding two_calls_in_succession = [0, 1]
   \<and> sounding (run initial (take 2 three_plays)) = [1]
   \<and> currentSource (run initial (take 2 three_plays)) = Some 1
   \<and> sounding (run initial (take 3 three_plays)) = [1]
   \<and> currentSource (run initial (take 3 three_plays)) = None
   \<and> fired (run initial (take 3 three_plays)) = [7]
   \<and> sounding (run initial three_plays) = [1, 2]
   \<and> sounding (audioService (interview (mounted []) (take 10 overlapping_session))) = [2]
   \<and> sounding (audioService (interview (mounted []) (take 11 overlapping_session))) = [2]
   \<and> \<not> isPlaying (interview (mounted []) (take 11 overlapping_session))
   \<and> sounding (audioService (interview (mounted []) overlapping_session)) = [2, 3]"
  by (simp add: two_calls_in_succession_def playAudio_begin_def playAudio_resume_def resume_def
      three_plays_def overlapping_session_def session_defs audio_defs)

section \<open>A failed play that is not silent\<close>

text \<open>
  C8, violated by the code.  The callback of a failing play is invoked at once, but the
  slot is not always free and the failure is not always silence.  First, after the late
  \<^verbatim>\<open>ended\<close> event of a superseded node has erased the handle of the sounding node, a
  play that cannot decode its payload invokes its callback while that node goes on
  sounding: on the service alone, and in a session driven by its buttons.  Second, a call
  that fails in decoding reaches its \<^verbatim>\<open>catch\<close> after its await; when an earlier call was
  suspended at its own await, that call has installed and started its node by then, and
  the callback of the failing call runs while the handle is set and the node sounds.
\<close>

theorem failed_play_not_silent:
  "acquisition_or_decoding_fails browser ''cde'' (run initial (take 3 three_plays))
   \<and> fired (run initial (take 3 three_plays)) = [7]
   \<and> fired (playAudio browser ''cde'' (Some 9) (run initial (take 3 three_plays))) = [7, 9]
   \<and> currentSource (playAudio browser ''cde'' (Some 9) (run initial (take 3 three_plays))) = None
   \<and> sounding (playAudio browser ''cde'' (Some 9) (run initial (take 3 three_plays))) = [1]
   \<and> sounding (audioService (interview (mounted []) failed_narration)) = [2]
   \<and> \<not> isPlaying (interview (mounted []) failed_narration)
   \<and> fired failing_call_interleaved = [8]
   \<and> currentSource failing_call_interleaved = Some 0
   \<and> sounding failing_call_interleaved = [0]"
  by (simp add: acquisition_or_decoding_fails_def failing_call_interleaved_def failed_narration_def
      playAudio_begin_def playAudio_resume_def resume_def
      three_plays_def overlapping_session_def session_defs audio_defs)

section \<open>An evaluation attached to other turns\<close>

text \<open>
  C6, violated by the code.  The evaluation is written on every turn whose identifier
  equals that of the submitted turn, and identifiers are readings of the millisecond
  clock: \<^verbatim>\<open>Date.now()\<close> for a user's turn, \<^verbatim>\<open>Date.now() + 1\<close> for an AI turn.  When the
  question arrives at clock 200 and the next answer is submitted at clock 201, the AI
  turn and the user's turn share the identifier 201, and the evaluation of the answer is
  written on the AI turn as well.  When the clock reads 100 at two submissions, the
  evaluation of the second answer replaces the feedback and score of the first.  Neither
  session removes, reorders or rewrites a turn.
\<close>

theorem evaluation_reaches_other_turns:
  "map core (messages (interview (mounted []) (take 7 colliding_session))) =
      [(''init'', AI, ''Q1''), (''100'', USER, ''a1''), (''201'', AI, ''Q2''), (''201'', USER, ''a2'')]
   \<and> map feedback (messages (interview (mounted []) (take 7 colliding_session))) =
      [None, Some ''Good'', None, None]
   \<and> map core (messages (interview (mounted []) colliding_session)) =
      [(''init'', AI, ''Q1''), (''100'', USER, ''a1''), (''201'', AI, ''Q2''), (''201'', USER, ''a2'')]
   \<and> map feedback (messages (interview (mounted []) colliding_session)) =
      [None, Some ''Good'', Some ''Poor'', Some ''Poor'']
   \<and> map score (messages (interview (mounted []) colliding_session)) =
      [None, Some 8, Some 2, Some 2]
   \<and> \<not> fresh_ids (mounted []) colliding_session
   \<and> map core (messages (interview (mounted []) repeated_clock_session)) =
      [(''init'', AI, ''Q1''), (''100'', USER, ''a1''), (''201'', AI, ''Q2''), (''100'', USER, ''a2'')]
   \<and> map feedback (messages (interview (mounted []) (take 7 repeated_clock_session))) =
      [None, Some ''Good'', None, None]
   \<and> map feedback (messages (interview (mounted []) repeated_clock_session)) =
      [None, Some ''Poor'', None, Some ''Poor'']"
  by (simp add: colliding_session_def repeated_clock_session_def one_cycle_def poor_def core_def
      session_defs Let_def)
end
